theory Spec2Isabelle
  imports Main
begin

section \<open>Values handled by the client (lib/nats.js)\<close>

text \<open>
  JavaScript strings and Buffers are both modelled as \<open>string\<close>: a \<open>char\<close> is one
  byte of a Buffer, or one code unit (restricted to 0..255) of a string.  A queued
  command is either a string or a Buffer, and the code tells them apart with
  \<open>Buffer.isBuffer\<close>.
\<close>

datatype chunk = Str string | Buf string

text \<open>\<open>Buffer.byteLength(s)\<close>: the UTF-8 length of a string of code units below 256.\<close>

definition utf8len :: "char \<Rightarrow> nat" where
  "utf8len c = (if (of_char c :: nat) < 128 then 1 else 2)"

definition byteLength :: "string \<Rightarrow> nat" where
  "byteLength s = sum_list (map utf8len s)"

text \<open>\<open>Buffer.isBuffer(cmd) ? cmd.length : Buffer.byteLength(cmd)\<close>\<close>

definition cmdLen :: "chunk \<Rightarrow> nat" where
  "cmdLen cmd = (case cmd of Buf b \<Rightarrow> length b | Str s \<Rightarrow> byteLength s)"

text \<open>The UTF-8 bytes written by \<open>Buffer.write\<close> for such a string.\<close>

definition utf8 :: "string \<Rightarrow> string" where
  "utf8 s = concat (map (\<lambda>c. if (of_char c :: nat) < 128 then [c]
       else [char_of (192 + (of_char c :: nat) div 64), char_of (128 + (of_char c :: nat) mod 64)]) s)"

text \<open>Decimal text of a number, as string concatenation produces it.\<close>

fun show_nat :: "nat \<Rightarrow> string" where
  "show_nat n = (if n < 10 then [char_of (48 + n)]
                 else show_nat (n div 10) @ [char_of (48 + n mod 10)])"

declare show_nat.simps [simp del]

definition show_int :: "int \<Rightarrow> string" where
  "show_int i = (if i < 0 then CHR ''-'' # show_nat (nat (- i)) else show_nat (nat i))"

text \<open>
  A callback argument supplied by the application: \<open>undefined\<close>, \<open>null\<close>, or a function,
  identified by a number.  Application functions are opaque: invoking one is recorded
  in the effect log and does not call back into the client.
\<close>

datatype cbval = Undefined | Null | Fn nat

definition truthy_cb :: "cbval \<Rightarrow> bool" where
  "truthy_cb cb = (case cb of Fn _ \<Rightarrow> True | _ \<Rightarrow> False)"

text \<open>
  The functions stored as \<open>sub.callback\<close>: the application's callback (subscribe), the
  dispatcher closure of createResponseMux, or the wrapper closure of oldRequest around
  the application's callback.
\<close>

datatype subcb = SubUser cbval | SubMux | SubOldReq cbval

text \<open>
  The entries of the pong queue: what flush was given, \<open>undefined\<close> pushed by the
  heartbeat, or the closure around connectCB pushed on the first INFO.
\<close>

datatype pongcb = PongUser cbval | PongConnect

text \<open>Arguments of the public API that the code inspects with \<open>typeof\<close> and truthiness.\<close>

datatype jsval = JUndef | JNull | JStr string | JBuf string | JFun nat

definition truthy :: "jsval \<Rightarrow> bool" where
  "truthy v = (case v of JUndef \<Rightarrow> False | JNull \<Rightarrow> False | JStr s \<Rightarrow> s \<noteq> [] | _ \<Rightarrow> True)"

text \<open>
  String concatenation \<open>'PUB ' + v\<close>.  A Buffer is rendered by its bytes (exact for
  ASCII content); a function never reaches a concatenation in publish.
\<close>

definition toStr :: "jsval \<Rightarrow> string" where
  "toStr v = (case v of JUndef \<Rightarrow> ''undefined'' | JNull \<Rightarrow> ''null'' | JStr s \<Rightarrow> s
                | JBuf b \<Rightarrow> b | JFun _ \<Rightarrow> ''function'')"

subsection \<open>Constants\<close>

definition CR_LF :: string where "CR_LF = [CHR 0x0D, CHR 0x0A]"
definition CR_LF_LEN :: nat where "CR_LF_LEN = length CR_LF"
definition EMPTY :: string where "EMPTY = []"
definition SPC :: string where "SPC = '' ''"
definition SUB :: string where "SUB = ''SUB''"
definition UNSUB :: string where "UNSUB = ''UNSUB''"
definition CONNECT :: string where "CONNECT = ''CONNECT''"
definition PING_REQUEST :: string where "PING_REQUEST = ''PING'' @ CR_LF"
definition PONG_RESPONSE :: string where "PONG_RESPONSE = ''PONG'' @ CR_LF"
definition FLUSH_THRESHOLD :: nat where "FLUSH_THRESHOLD = 65536"
definition MAX_CONTROL_LINE_SIZE :: nat where "MAX_CONTROL_LINE_SIZE = 1024"
definition AWAITING_CONTROL :: int where "AWAITING_CONTROL = 0"
definition AWAITING_MSG_PAYLOAD :: int where "AWAITING_MSG_PAYLOAD = 1"

definition BAD_SUBJECT :: string where "BAD_SUBJECT = ''BAD_SUBJECT''"
definition BAD_MSG :: string where "BAD_MSG = ''BAD_MSG''"
definition BAD_REPLY :: string where "BAD_REPLY = ''BAD_REPLY''"
definition CONN_CLOSED :: string where "CONN_CLOSED = ''CONN_CLOSED''"
definition CONN_ERR :: string where "CONN_ERR = ''CONN_ERR''"
definition NATS_PROTOCOL_ERR :: string where "NATS_PROTOCOL_ERR = ''NATS_PROTOCOL_ERR''"
definition REQ_TIMEOUT :: string where "REQ_TIMEOUT = ''REQ_TIMEOUT''"
definition REQ_TIMEOUT_MSG_PREFIX :: string where
  "REQ_TIMEOUT_MSG_PREFIX = ''The request timed out for subscription id: ''"
definition PERMISSIONS_ERR :: string where "PERMISSIONS_ERR = ''permissions violation''"
definition STALE_CONNECTION_ERR :: string where "STALE_CONNECTION_ERR = ''stale connection''"
definition SECURE_CONN_REQ :: string where "SECURE_CONN_REQ = ''SECURE_CONN_REQ''"
definition NON_SECURE_CONN_REQ :: string where "NON_SECURE_CONN_REQ = ''NON_SECURE_CONN_REQ''"
definition CLIENT_CERT_REQ :: string where "CLIENT_CERT_REQ = ''CLIENT_CERT_REQ''"
definition SIGNATURE_REQUIRED :: string where "SIGNATURE_REQUIRED = ''SIG_REQ''"
definition SIGCB_NOTFUNC :: string where "SIGCB_NOTFUNC = ''SIG_NOT_FUNC''"
definition NKEY_OR_JWT_REQ :: string where "NKEY_OR_JWT_REQ = ''NKEY_OR_JWT_REQ''"
definition BAD_CREDS :: string where "BAD_CREDS = ''BAD_CREDENTIALS''"
definition TypeError :: string where "TypeError = ''TypeError''"
definition RangeError :: string where "RangeError = ''RangeError''"
definition BAD_JSON :: string where "BAD_JSON = ''BAD_JSON''"

text \<open>\<open>proto.join(SPC)\<close>\<close>

fun join_spc :: "string list \<Rightarrow> string" where
  "join_spc [] = []"
| "join_spc [x] = x"
| "join_spc (x # y # ys) = x @ SPC @ join_spc (y # ys)"

subsection \<open>Effects\<close>

text \<open>
  What the client does to the outside is kept in a log, oldest first: the events it
  emits, and the invocations of application callbacks, each tagged with the place it is
  invoked from.  An emit is logged whether or not a listener is attached.  For a
  delivered message the log keeps the payload the \<open>msg\<close> argument is made from: the
  code passes the payload itself, or with the json option what \<open>JSON.parse\<close> makes
  of it (the exception, if it throws).
\<close>

datatype event =
    EvSubscribe int string
  | EvUnsubscribe "int option" string
  | EvError string "string option"
  | EvPermissionError string "string option"
  | EvConnect | EvReconnect | EvReconnecting | EvDisconnect | EvClose
  | EvPingTimer | EvPingCount int
  | EvServersDiscovered "string list" | EvServers "string list"

datatype effect =
    Emit event
  | CallSub nat chunk "string option" string "int option"
      \<comment> \<open>\<open>sub.callback(msg, reply, subj, sid)\<close> of an application callback\<close>
  | CallOldReq nat chunk "string option"
      \<comment> \<open>\<open>callback(msg, reply)\<close> inside the oldRequest wrapper\<close>
  | CallReq string nat chunk "string option"
      \<comment> \<open>\<open>conf.callback(msg, reply)\<close> of the request stored under a token\<close>
  | CallReqErr string nat string string
      \<comment> \<open>\<open>conf.callback(new NatsError(message, code))\<close> from the request timer\<close>
  | CallPong nat
      \<comment> \<open>\<open>cb()\<close> of a pong-queue entry\<close>
  | CallErr nat string
      \<comment> \<open>\<open>opt_callback(new NatsError(_, code))\<close> in publish and flush\<close>

datatype 'a ret = Ret 'a | Throw string

text \<open>
  The optional \<open>opts\<close> argument of subscribe and request: absent, a function (the
  callback given in its place), or an object of which \<open>queue\<close>, \<open>max\<close> and
  \<open>timeout\<close> are read.
\<close>

datatype 'f apiopts = ONone | OFn 'f
  | OObj (o_queue: "string option") (o_max: "int option") (o_timeout: "int option")

text \<open>The closure armed by request with setTimeout; it holds \<open>conf\<close>: token, callback, id.\<close>

datatype timer = ReqTimer string cbval int

subsection \<open>State\<close>

text \<open>An entry of \<open>client.subs\<close>.  A timer handle is a number.\<close>

record sub =
  s_subject :: string
  s_callback :: subcb
  s_received :: int
  s_qgroup :: "string option"
  s_max :: "int option"
  s_timeout :: "nat option"
  s_expected :: "int option"

text \<open>An entry of \<open>respmux.requestMap\<close> (\<open>conf\<close> in the code).\<close>

record muxreq =
  rq_token :: string
  rq_callback :: cbval
  rq_inbox :: string
  rq_id :: int
  rq_received :: int
  rq_expected :: "int option"
  rq_timeout :: "nat option"

record respmux_t =
  mx_inbox :: string
  inboxPrefixLen :: nat
  subscriptionID :: int
  requestMap :: "(string \<times> muxreq) list"
  nextID :: int

text \<open>
  The socket.  \<open>written\<close> lists the calls of \<open>stream.write\<close>, oldest first, each
  with the commands whose concatenation it was given (the bytes on the wire are the
  concatenation of all of them); \<open>unanswered\<close> counts the PING commands among them for
  which no PONG has been read yet.  Both record history and are not fields of the code.
\<close>

record stream_t =
  connecting :: bool
  encrypted :: bool
  paused :: bool
  written :: "chunk list list"
  unanswered :: nat

record server =
  url :: string
  didConnect :: bool
  implicit :: bool

datatype tls_opt = TlsFalse | TlsTrue | TlsObj bool  \<comment> \<open>\<open>TlsObj c\<close>: an object; \<open>c\<close> iff it has \<open>cert\<close>\<close>
datatype sig_opt = SigUndef | SigNotFn | SigFn

text \<open>
  The options the modelled code reads.  \<open>decode\<close> stands for \<open>Buffer.toString\<close> in the
  configured encoding, \<open>connect_json\<close> for the text \<open>JSON.stringify\<close> gives the CONNECT
  object, \<open>creds_valid\<close> for whether the credentials file matches \<open>CREDS\<close>; \<open>nuids\<close> is
  the sequence of values \<open>nuid.next()\<close> returns, \<open>stringify\<close> stands for
  \<open>JSON.stringify\<close> on a message (\<open>None\<close> when it throws).  \<open>yieldTime\<close> is unset.
\<close>

record opts =
  maxPingOut :: int
  preserveBuffers :: bool
  useOldRequestStyle :: bool
  reconnect :: bool
  maxReconnectAttempts :: int
  waitOnFirstConnect :: bool
  tls :: tls_opt
  usercreds :: bool
  creds_valid :: bool
  sig :: sig_opt
  nkey_or_jwt :: bool
  decode :: "string \<Rightarrow> string"
  connect_json :: string
  nuids :: "nat \<Rightarrow> string"
  json :: bool
  stringify :: "jsval \<Rightarrow> string option"

record info_t =
  tls_required :: bool
  tls_verify :: bool
  nonce :: bool
  connect_urls :: "string list"

record payload_t =
  p_subj :: string
  p_sid :: "int option"
  p_reply :: "string option"
  p_size :: nat
  p_psize :: nat
  p_chunks :: "string list option"
  p_msg :: "chunk option"

text \<open>
  The client object.  \<open>None\<close> stands for \<open>null\<close> (and, for \<open>pongs\<close> between initState
  and the first createConnection, for \<open>undefined\<close>).  \<open>nuid_n\<close> counts the calls of
  \<open>nuid.next()\<close>; \<open>timers\<close> holds the armed request timers by handle and
  \<open>next_timer\<close> is the next handle; \<open>flushScheduled\<close> counts the flushes queued with
  setImmediate; \<open>destroyed\<close> counts \<open>stream.destroy()\<close>; \<open>reconnectTimers\<close> counts
  the armed reconnect timers; \<open>unsolicited\<close> counts the PONGs read while no written
  PING was unanswered; \<open>log\<close> is the effect log.
\<close>

record client =
  options :: opts
  closed :: bool
  connected :: bool
  wasConnected :: bool
  reconnecting :: bool
  reconnects :: int
  ssid :: int
  subs :: "(int \<times> sub) list option"
  pending :: "chunk list option"
  pSize :: nat
  pBufs :: bool
  pongs :: "pongcb list option"
  pout :: int
  pstate :: int
  payload :: "payload_t option"
  inbound :: "string option"
  stream :: "stream_t option"
  info :: "info_t option"
  infoReceived :: bool
  pingTimer :: bool
  respmux :: "respmux_t option"
  servers :: "server list"
  currentServer :: "server option"
  listeners :: bool
  flushScheduled :: nat
  reconnectTimers :: nat
  nuid_n :: nat
  timers :: "(nat \<times> timer) list"
  next_timer :: nat
  destroyed :: nat
  unsolicited :: nat
  log :: "effect list"

definition emit :: "event \<Rightarrow> client \<Rightarrow> client" where
  "emit ev c = c\<lparr>log := log c @ [Emit ev]\<rparr>"

definition call :: "effect \<Rightarrow> client \<Rightarrow> client" where
  "call e c = c\<lparr>log := log c @ [e]\<rparr>"

text \<open>Objects used as dictionaries: lookup, assignment (a new key goes last), delete.\<close>

definition obj_get :: "('k \<times> 'v) list \<Rightarrow> 'k \<Rightarrow> 'v option" where
  "obj_get m k = map_of m k"

fun obj_set :: "('k \<times> 'v) list \<Rightarrow> 'k \<Rightarrow> 'v \<Rightarrow> ('k \<times> 'v) list" where
  "obj_set [] k v = [(k, v)]"
| "obj_set ((k', v') # m) k v = (if k' = k then (k, v) # m else (k', v') # obj_set m k v)"

definition obj_del :: "('k \<times> 'v) list \<Rightarrow> 'k \<Rightarrow> ('k \<times> 'v) list" where
  "obj_del m k = filter (\<lambda>kv. fst kv \<noteq> k) m"


section \<open>The send path\<close>

definition is_Buf :: "chunk \<Rightarrow> bool" where
  "is_Buf x = (case x of Buf _ \<Rightarrow> True | Str _ \<Rightarrow> False)"

definition count_pings :: "chunk list \<Rightarrow> nat" where
  "count_pings cs = length (filter (\<lambda>x. x = Str PING_REQUEST) cs)"

text \<open>
  \<open>client.stream.write(data)\<close>, once for each element of \<open>ws\<close>.  The stream is not
  null wherever the code writes from a state it can reach; on a null stream (a
  TypeError in the code) the model writes nothing.
\<close>

definition stream_write :: "chunk list list \<Rightarrow> client \<Rightarrow> client" where
  "stream_write ws c =
     (case stream c of None \<Rightarrow> c
      | Some s \<Rightarrow> c\<lparr>stream := Some (s\<lparr>written := written s @ ws,
                       unanswered := unanswered s + count_pings (concat ws)\<rparr>)\<rparr>)"

definition flushPending :: "client \<Rightarrow> client" where
  "flushPending c =
     (case pending c of None \<Rightarrow> c
      | Some p \<Rightarrow>
          if connected c = False \<or> p = [] \<or> infoReceived c \<noteq> True then c
          else if \<not> pBufs c then stream_write [p] (c\<lparr>pending := Some [], pSize := 0\<rparr>)
          else if list_all is_Buf p then stream_write [p] (c\<lparr>pending := Some [], pSize := 0\<rparr>)
          else stream_write (map (\<lambda>x. [x]) p) (c\<lparr>pending := Some [], pSize := 0\<rparr>))"

definition sendCommand :: "chunk \<Rightarrow> client \<Rightarrow> client" where
  "sendCommand cmd c =
     (if closed c then c
      else case pending c of None \<Rightarrow> c
      | Some p \<Rightarrow>
          let c1 = c\<lparr>pending := Some (p @ [cmd])\<rparr>;
              c2 = (case cmd of
                      Str s \<Rightarrow> c1\<lparr>pSize := pSize c1 + byteLength s\<rparr>
                    | Buf b \<Rightarrow> c1\<lparr>pSize := pSize c1 + length b, pBufs := True\<rparr>)
          in if connected c2 = True then
               (if length (p @ [cmd]) = 1 then c2\<lparr>flushScheduled := flushScheduled c2 + 1\<rparr>
                else if pSize c2 > FLUSH_THRESHOLD then flushPending c2
                else c2)
             else c2)"

section \<open>Life cycle\<close>

definition closeStream :: "client \<Rightarrow> client" where
  "closeStream c =
     (let c1 = (case stream c of Some s \<Rightarrow> c\<lparr>stream := None, destroyed := destroyed c + 1\<rparr>
                | None \<Rightarrow> c);
          c2 = (if connected c1 = True \<or> closed c1 = True
                then c1\<lparr>pongs := None, pout := 0, pending := None, pSize := 0, connected := False\<rparr>
                else c1)
      in c2\<lparr>inbound := None\<rparr>)"

definition close :: "client \<Rightarrow> client" where
  "close c =
     (let c1 = (if pingTimer c then c\<lparr>pingTimer := False\<rparr> else c);
          c2 = c1\<lparr>closed := True, listeners := False\<rparr>;
          c3 = closeStream c2
      in c3\<lparr>ssid := - 1, subs := None, pstate := - 1, pongs := None, pending := None,
             pSize := 0\<rparr>)"

text \<open>
  The fields a fresh object has before initState runs: everything \<open>undefined\<close>, and the
  options and server list parseOptions produced.
\<close>

definition blank :: "opts \<Rightarrow> server list \<Rightarrow> client" where
  "blank os srvs =
     \<lparr>options = os, closed = False, connected = False, wasConnected = False,
      reconnecting = False, reconnects = 0, ssid = 0, subs = None, pending = None,
      pSize = 0, pBufs = False, pongs = None, pout = 0, pstate = 0, payload = None,
      inbound = None, stream = None, info = None, infoReceived = False,
      pingTimer = False, respmux = None, servers = srvs, currentServer = None,
      listeners = True, flushScheduled = 0, reconnectTimers = 0, nuid_n = 0,
      timers = [], next_timer = 0, destroyed = 0, unsolicited = 0, log = []\<rparr>"

definition initState :: "client \<Rightarrow> client" where
  "initState c = c\<lparr>ssid := 1, subs := Some [], reconnects := 0, connected := False,
     wasConnected := False, reconnecting := False, pending := Some [], pout := 0\<rparr>"

text \<open>
  \<open>cmd.length > 3 && cmd[0] === 'P' && cmd[1] === 'U' && cmd[2] === 'B'\<close>: indexing a
  Buffer gives a number, which is never \<open>===\<close> to a one-character string.
\<close>

definition is_PUB :: "chunk \<Rightarrow> bool" where
  "is_PUB cmd = (case cmd of
       Str s \<Rightarrow> length s > 3 \<and> s ! 0 = CHR ''P'' \<and> s ! 1 = CHR ''U'' \<and> s ! 2 = CHR ''B''
     | Buf b \<Rightarrow> False)"

text \<open>
  The \<open>forEach\<close> of createConnection over the old pending queue, with its variables
  \<open>pongIndex\<close>, \<open>pend\<close>, \<open>pSize\<close> and \<open>pong\<close>.  \<open>pgs\<close> is \<open>client.pongs\<close>.
\<close>

fun rebuild :: "pongcb list option \<Rightarrow> chunk list \<Rightarrow> nat \<Rightarrow> chunk list \<times> nat \<times> pongcb list
                  \<Rightarrow> chunk list \<times> nat \<times> pongcb list" where
  "rebuild pgs [] pongIndex acc = acc"
| "rebuild pgs (cmd # cmds) pongIndex (pend, pSz, pong) =
     (if cmd = Str PING_REQUEST \<and> pgs \<noteq> None \<and> pongIndex < length (the pgs) then
        (let p = the pgs ! pongIndex in
         if p \<noteq> PongUser Undefined
         then rebuild pgs cmds (pongIndex + 1) (pend @ [cmd], pSz + cmdLen cmd, pong @ [p])
         else rebuild pgs cmds (pongIndex + 1) (pend, pSz, pong))
      else if is_PUB cmd then rebuild pgs cmds pongIndex (pend @ [cmd], pSz + cmdLen cmd, pong)
      else rebuild pgs cmds pongIndex (pend, pSz, pong))"

text \<open>
  selectServer rotates the server list.  On an empty list the code fails with a
  TypeError after it has stored \<open>undefined\<close> as the current server.  The credentials
  carried by the URL are not modelled.
\<close>

definition selectServer :: "client \<Rightarrow> unit ret \<times> client" where
  "selectServer c = (case servers c of
       [] \<Rightarrow> (Throw TypeError, c\<lparr>currentServer := None\<rparr>)
     | s # ss \<Rightarrow> (Ret (), c\<lparr>currentServer := Some s, servers := ss @ [s]\<rparr>))"

definition new_stream :: stream_t where
  "new_stream = \<lparr>connecting = True, encrypted = False, paused = False, written = [],
                 unanswered = 0\<rparr>"

definition createConnection :: "client \<Rightarrow> unit ret \<times> client" where
  "createConnection c =
     (let (pend, pSz, pong) = (case pending c of None \<Rightarrow> ([], 0, [])
                               | Some p \<Rightarrow> rebuild (pongs c) p 0 ([], 0, []));
          c1 = c\<lparr>pongs := Some pong, pending := Some pend, pSize := pSz,
                 pstate := AWAITING_CONTROL, info := None, infoReceived := False\<rparr>
      in case selectServer c1 of
           (Throw e, c2) \<Rightarrow> (Throw e, c2)
         | (Ret _, c2) \<Rightarrow>
             (let c3 = (case stream c2 of Some s \<Rightarrow> c2\<lparr>destroyed := destroyed c2 + 1\<rparr>
                        | None \<Rightarrow> c2)
              in (Ret (), c3\<lparr>stream := Some new_stream\<rparr>)))"

text \<open>\<open>new Client(opts)\<close>, after parseOptions.\<close>

definition new_client :: "opts \<Rightarrow> server list \<Rightarrow> client" where
  "new_client os srvs = snd (createConnection (initState (blank os srvs)))"


section \<open>Subscriptions and requests\<close>

definition obj_upd :: "('k \<times> 'v) list \<Rightarrow> 'k \<Rightarrow> ('v \<Rightarrow> 'v) \<Rightarrow> ('k \<times> 'v) list" where
  "obj_upd m k f = map (\<lambda>kv. if fst kv = k then (fst kv, f (snd kv)) else kv) m"

text \<open>A mutation of the subscription object stored under \<open>sid\<close>, and its removal.\<close>

definition upd_sub :: "int \<Rightarrow> (sub \<Rightarrow> sub) \<Rightarrow> client \<Rightarrow> client" where
  "upd_sub n f c = c\<lparr>subs := map_option (\<lambda>ss. obj_upd ss n f) (subs c)\<rparr>"

definition del_sub :: "int \<Rightarrow> client \<Rightarrow> client" where
  "del_sub n c = c\<lparr>subs := map_option (\<lambda>ss. obj_del ss n) (subs c)\<rparr>"

definition clearTimeout :: "nat \<Rightarrow> client \<Rightarrow> client" where
  "clearTimeout h c = c\<lparr>timers := filter (\<lambda>t. fst t \<noteq> h) (timers c)\<rparr>"

text \<open>
  getMuxRequestConfig is given a number (the id returned by request) or a string (a
  token).  For a number it walks the request map for the first entry with that id.
\<close>

datatype tok = TNum int | TStr string

definition getMuxRequestConfig :: "tok \<Rightarrow> respmux_t \<Rightarrow> muxreq option" where
  "getMuxRequestConfig t m =
     (let key = (case t of
                   TNum n \<Rightarrow> (case find (\<lambda>kv. rq_id (snd kv) = n) (requestMap m) of
                                Some kv \<Rightarrow> rq_token (snd kv)
                              | None \<Rightarrow> show_int n)
                 | TStr s \<Rightarrow> s)
      in obj_get (requestMap m) key)"

definition cancelMuxRequest :: "tok \<Rightarrow> client \<Rightarrow> muxreq option ret \<times> client" where
  "cancelMuxRequest t c =
     (case respmux c of
        None \<Rightarrow> (Throw TypeError, c)
      | Some m \<Rightarrow>
          (case getMuxRequestConfig t m of
             None \<Rightarrow> (Ret None, c)
           | Some conf \<Rightarrow>
               let c1 = (case rq_timeout conf of Some h \<Rightarrow> clearTimeout h c | None \<Rightarrow> c)
               in (Ret (Some conf),
                   c1\<lparr>respmux := Some (m\<lparr>requestMap := obj_del (requestMap m) (rq_token conf)\<rparr>)\<rparr>)))"

text \<open>unsubscribe, from \<open>var sub = this.subs[sid]\<close> on.\<close>

definition unsubscribe_tail :: "int \<Rightarrow> int option \<Rightarrow> client \<Rightarrow> unit ret \<times> client" where
  "unsubscribe_tail n opt_max c1 =
     (case subs c1 of
        None \<Rightarrow> (Throw TypeError, c1)
      | Some ss \<Rightarrow>
          (case obj_get ss n of
             None \<Rightarrow> (Ret (), c1)
           | Some sub0 \<Rightarrow>
               let sub1 = sub0\<lparr>s_max := opt_max\<rparr>;
                   c2 = upd_sub n (\<lambda>s. s\<lparr>s_max := opt_max\<rparr>) c1
               in if s_max sub1 = None \<or> s_received sub1 \<ge> the (s_max sub1) then
                    (let c3 = (case s_timeout sub1 of
                                 Some h \<Rightarrow> upd_sub n (\<lambda>s. s\<lparr>s_timeout := None\<rparr>) (clearTimeout h c2)
                               | None \<Rightarrow> c2)
                     in (Ret (), emit (EvUnsubscribe (Some n) (s_subject sub1)) (del_sub n c3)))
                  else (Ret (), c2)))"

text \<open>
  unsubscribe(sid, opt_max).  \<open>sid\<close> and \<open>opt_max\<close> are numbers; \<open>None\<close> is
  \<open>undefined\<close>.
\<close>

definition unsubscribe :: "int option \<Rightarrow> int option \<Rightarrow> client \<Rightarrow> unit ret \<times> client" where
  "unsubscribe sid opt_max c =
     (case sid of
        None \<Rightarrow> (Ret (), c)
      | Some n \<Rightarrow>
          if n = 0 \<or> closed c then (Ret (), c)
          else if n < 0 then
            (case cancelMuxRequest (TNum n) c of
               (Throw e, c') \<Rightarrow> (Throw e, c')
             | (Ret _, c') \<Rightarrow> (Ret (), c'))
          else
            let proto = (if opt_max \<noteq> None \<and> opt_max \<noteq> Some 0
                         then [UNSUB, show_int n, show_int (the opt_max) @ CR_LF]
                         else [UNSUB, show_int n @ CR_LF])
            in unsubscribe_tail n opt_max (sendCommand (Str (join_spc proto)) c))"

text \<open>subscribe, from \<open>if (max)\<close> on.\<close>

definition subscribe_max :: "int option \<Rightarrow> client \<Rightarrow> int ret \<times> client" where
  "subscribe_max mx c4 =
     (if mx \<noteq> None \<and> mx \<noteq> Some 0 then
        (case unsubscribe (Some (ssid c4)) mx c4 of
           (Throw e, c5) \<Rightarrow> (Throw e, c5)
         | (Ret _, c5) \<Rightarrow> (Ret (ssid c5), c5))
      else (Ret (ssid c4), c4))"

definition subscribe :: "string \<Rightarrow> subcb apiopts \<Rightarrow> subcb \<Rightarrow> client \<Rightarrow> int ret \<times> client" where
  "subscribe subj opts cb c =
     (if closed c then (Throw CONN_CLOSED, c)
      else
        let (cb', qg, mx) = (case opts of
                               OFn f \<Rightarrow> (f, None, None)
                             | OObj q m t \<Rightarrow> (cb, q, m)
                             | ONone \<Rightarrow> (cb, None, None));
            c1 = c\<lparr>ssid := ssid c + 1\<rparr>
        in case subs c1 of
             None \<Rightarrow> (Throw TypeError, c1)
           | Some ss \<Rightarrow>
               let sub0 = \<lparr>s_subject = subj, s_callback = cb', s_received = 0, s_qgroup = None,
                           s_max = None, s_timeout = None, s_expected = None\<rparr>;
                   (sub1, proto) = (case qg of
                        Some q \<Rightarrow> (sub0\<lparr>s_qgroup := Some q\<rparr>, [SUB, subj, q, show_int (ssid c1) @ CR_LF])
                      | None \<Rightarrow> (sub0, [SUB, subj, show_int (ssid c1) @ CR_LF]));
                   c2 = c1\<lparr>subs := Some (obj_set ss (ssid c1) sub1)\<rparr>;
                   c3 = sendCommand (Str (join_spc proto)) c2;
                   c4 = emit (EvSubscribe (ssid c3) subj) c3
               in subscribe_max mx c4)"

definition flush :: "cbval \<Rightarrow> client \<Rightarrow> unit ret \<times> client" where
  "flush opt_callback c =
     (if closed c then
        (case opt_callback of
           Fn k \<Rightarrow> (Ret (), call (CallErr k CONN_CLOSED) c)
         | _ \<Rightarrow> (Throw CONN_CLOSED, c))
      else case pongs c of
             None \<Rightarrow> (Ret (), c)
           | Some q \<Rightarrow>
               (Ret (), flushPending (sendCommand (Str PING_REQUEST)
                                        (c\<lparr>pongs := Some (q @ [PongUser opt_callback])\<rparr>))))"

text \<open>
  \<open>b.write(s)\<close> on a Buffer with room for \<open>n\<close> more bytes: the UTF-8 bytes of the
  characters of \<open>s\<close> for as long as a whole character fits.
\<close>

fun write_utf8 :: "string \<Rightarrow> nat \<Rightarrow> string" where
  "write_utf8 [] n = []"
| "write_utf8 (ch # s) n =
     (if utf8len ch \<le> n then utf8 [ch] @ write_utf8 s (n - utf8len ch) else [])"

text \<open>
  publish, from \<open>var psub\<close> on: first the command it builds, then the rest.  With the
  json option a message that is not a Buffer goes through \<open>JSON.stringify\<close>, and
  publish throws BAD_JSON when that throws.  For a Buffer the code allocates
  \<open>psub.length + msg.length + 2 * CR_LF_LEN + msg.length.toString().length\<close> bytes,
  counting characters, writes the header (\<open>len\<close> bytes of UTF-8), copies the message
  behind it, and writes CRLF at offset \<open>len + msg.length\<close>: \<open>Buffer.write\<close> throws a
  RangeError when that offset lies beyond the end of the Buffer.
\<close>

definition pub_command :: "opts \<Rightarrow> jsval \<Rightarrow> jsval \<Rightarrow> jsval \<Rightarrow> chunk ret" where
  "pub_command os subject msg opt_reply =
     (let psub = (if opt_reply = JUndef then ''PUB '' @ toStr subject @ SPC
                  else ''PUB '' @ toStr subject @ SPC @ toStr opt_reply @ SPC)
      in case msg of
           JBuf b \<Rightarrow>
             let n = length psub + length b + 2 * CR_LF_LEN + length (show_nat (length b));
                 header = write_utf8 (psub @ show_nat (length b) @ CR_LF) n;
                 len = length header
             in if len + length b > n then Throw RangeError
                else Ret (Buf (header @ b @ write_utf8 CR_LF (n - (len + length b))))
         | _ \<Rightarrow>
             if json os then
               (case stringify os msg of
                  None \<Rightarrow> Throw BAD_JSON
                | Some str \<Rightarrow> Ret (Str (psub @ show_nat (byteLength str) @ CR_LF @ str @ CR_LF)))
             else
               let str = toStr msg
               in Ret (Str (psub @ show_nat (byteLength str) @ CR_LF @ str @ CR_LF)))"

definition publish_send :: "jsval \<Rightarrow> jsval \<Rightarrow> jsval \<Rightarrow> cbval \<Rightarrow> client \<Rightarrow> unit ret \<times> client" where
  "publish_send subject msg opt_reply opt_callback c =
     (case pub_command (options c) subject msg opt_reply of
        Throw e \<Rightarrow> (Throw e, c)
      | Ret cmd \<Rightarrow>
          let c1 = sendCommand cmd c
          in if opt_callback \<noteq> Undefined then flush opt_callback c1
             else if closed c1 then (Throw CONN_CLOSED, c1)
             else (Ret (), c1))"

text \<open>publish, from \<open>if (typeof opt_reply === 'function')\<close> on.\<close>

definition publish_reply :: "jsval \<Rightarrow> jsval \<Rightarrow> jsval \<Rightarrow> cbval \<Rightarrow> client \<Rightarrow> unit ret \<times> client" where
  "publish_reply subject msg opt_reply opt_callback c =
     (case opt_reply of
        JFun h \<Rightarrow>
          (case opt_callback of
             Fn k \<Rightarrow> (Ret (), call (CallErr k BAD_REPLY) c)
           | _ \<Rightarrow> publish_send subject msg JUndef (Fn h) c)
      | _ \<Rightarrow> publish_send subject msg opt_reply opt_callback c)"

text \<open>
  The message publish goes on with: \<open>msg || EMPTY\<close>, or with the json option
  \<open>msg === undefined ? null : msg\<close>.
\<close>

definition pub_msg :: "opts \<Rightarrow> jsval \<Rightarrow> jsval" where
  "pub_msg os msg0 =
     (if \<not> json os then (if truthy msg0 then msg0 else JStr EMPTY)
      else (if msg0 = JUndef then JNull else msg0))"

text \<open>
  publish(subject, msg, opt_reply, opt_callback).  Calling an \<open>opt_callback\<close> that is
  not a function is a TypeError.
\<close>

definition publish :: "jsval \<Rightarrow> jsval \<Rightarrow> jsval \<Rightarrow> cbval \<Rightarrow> client \<Rightarrow> unit ret \<times> client" where
  "publish subject0 msg0 opt_reply opt_callback0 c =
     (let (subject, opt_callback) = (case subject0 of
                                       JFun f \<Rightarrow> (JUndef, Fn f)
                                     | _ \<Rightarrow> (subject0, opt_callback0));
          msg = pub_msg (options c) msg0
      in case (if \<not> truthy subject then
                 (case opt_callback of
                    Fn k \<Rightarrow> (Ret (), call (CallErr k BAD_SUBJECT) c)
                  | _ \<Rightarrow> (Throw BAD_SUBJECT, c))
               else (Ret (), c)) of
           (Throw e, c1) \<Rightarrow> (Throw e, c1)
         | (Ret _, c1) \<Rightarrow>
             (case msg of
                JFun g \<Rightarrow>
                  if truthy_cb opt_callback \<or> truthy opt_reply then
                    (case opt_callback of
                       Fn k \<Rightarrow> (Ret (), call (CallErr k BAD_MSG) c1)
                     | _ \<Rightarrow> (Throw TypeError, c1))
                  else publish_reply subject (JStr EMPTY) JUndef (Fn g) c1
              | _ \<Rightarrow> publish_reply subject msg opt_reply opt_callback c1))"

definition createResponseMux :: "client \<Rightarrow> string ret \<times> client" where
  "createResponseMux c =
     (case respmux c of
        Some m \<Rightarrow> (Ret (mx_inbox m), c)
      | None \<Rightarrow>
          let inbox = ''_INBOX.'' @ nuids (options c) (nuid_n c);
              c1 = c\<lparr>nuid_n := nuid_n c + 1\<rparr>;
              ginbox = inbox @ ''.*''
          in case subscribe ginbox (OFn SubMux) (SubUser Undefined) c1 of
               (Throw e, c2) \<Rightarrow> (Throw e, c2)
             | (Ret sid, c2) \<Rightarrow>
                 (Ret inbox,
                  c2\<lparr>respmux := Some \<lparr>mx_inbox = inbox, inboxPrefixLen = length inbox + 1,
                                      subscriptionID = sid, requestMap = [], nextID = - 1\<rparr>\<rparr>))"

definition initMuxRequestDetails :: "cbval \<Rightarrow> int option \<Rightarrow> client \<Rightarrow> muxreq ret \<times> client" where
  "initMuxRequestDetails cb expctd c =
     (case createResponseMux c of
        (Throw e, c1) \<Rightarrow> (Throw e, c1)
      | (Ret ginbox, c1) \<Rightarrow>
          let token = nuids (options c1) (nuid_n c1);
              c2 = c1\<lparr>nuid_n := nuid_n c1 + 1\<rparr>;
              inbox = ginbox @ ''.'' @ token
          in case respmux c2 of
               None \<Rightarrow> (Throw TypeError, c2)
             | Some m \<Rightarrow>
                 let conf0 = \<lparr>rq_token = token, rq_callback = cb, rq_inbox = inbox,
                              rq_id = nextID m, rq_received = 0, rq_expected = None,
                              rq_timeout = None\<rparr>;
                     m1 = m\<lparr>nextID := nextID m - 1\<rparr>;
                     conf = (case expctd of
                               Some e \<Rightarrow> if e > 0 then conf0\<lparr>rq_expected := Some e\<rparr> else conf0
                             | None \<Rightarrow> conf0)
                 in (Ret conf,
                     c2\<lparr>respmux := Some (m1\<lparr>requestMap := obj_set (requestMap m1) token conf\<rparr>)\<rparr>))"

text \<open>oldRequest: a subscription of its own for the request.\<close>

definition oldRequest :: "jsval \<Rightarrow> jsval \<Rightarrow> nat apiopts \<Rightarrow> cbval \<Rightarrow> client \<Rightarrow> int ret \<times> client" where
  "oldRequest subject opt_msg0 opt_options0 callback0 c =
     (let (callback1, opt_msg, opt_options1) =
            (case opt_msg0 of
               JFun f \<Rightarrow> (Fn f, JStr EMPTY, ONone)
             | _ \<Rightarrow> (callback0, opt_msg0, opt_options0));
          (callback, opt_options) =
            (case opt_options1 of
               OFn f \<Rightarrow> (Fn f, ONone)
             | OObj q m t \<Rightarrow> (callback1, OObj q m t)
             | ONone \<Rightarrow> (callback1, ONone));
          inbox = ''_INBOX.'' @ nuids (options c) (nuid_n c);
          c1 = c\<lparr>nuid_n := nuid_n c + 1\<rparr>
      in case subscribe inbox opt_options (SubOldReq callback) c1 of
           (Throw e, c2) \<Rightarrow> (Throw e, c2)
         | (Ret s, c2) \<Rightarrow>
             (case publish subject opt_msg (JStr inbox) Undefined c2 of
                (Throw e, c3) \<Rightarrow> (Throw e, c3)
              | (Ret _, c3) \<Rightarrow> (Ret s, c3)))"

definition setTimeout :: "timer \<Rightarrow> client \<Rightarrow> nat \<times> client" where
  "setTimeout t c = (next_timer c,
       c\<lparr>next_timer := next_timer c + 1, timers := timers c @ [(next_timer c, t)]\<rparr>)"

definition request :: "jsval \<Rightarrow> jsval \<Rightarrow> nat apiopts \<Rightarrow> cbval \<Rightarrow> client \<Rightarrow> int ret \<times> client" where
  "request subject opt_msg0 opt_options0 callback0 c =
     (if useOldRequestStyle (options c) then oldRequest subject opt_msg0 opt_options0 callback0 c
      else
        let (callback1, opt_msg, opt_options1) =
              (case opt_msg0 of
                 JFun f \<Rightarrow> (Fn f, JStr EMPTY, ONone)
               | _ \<Rightarrow> (callback0, opt_msg0, opt_options0));
            (callback, opt_options) =
              (case opt_options1 of
                 OFn f \<Rightarrow> (Fn f, ONone)
               | _ \<Rightarrow> (callback1, opt_options1));
            mx = (case opt_options of OObj q m t \<Rightarrow> m | _ \<Rightarrow> None);
            tmo = (case opt_options of OObj q m t \<Rightarrow> t | _ \<Rightarrow> None)
        in case initMuxRequestDetails callback mx c of
             (Throw e, c1) \<Rightarrow> (Throw e, c1)
           | (Ret conf, c1) \<Rightarrow>
               (case publish subject opt_msg (JStr (rq_inbox conf)) Undefined c1 of
                  (Throw e, c2) \<Rightarrow> (Throw e, c2)
                | (Ret _, c2) \<Rightarrow>
                    if tmo \<noteq> None \<and> tmo \<noteq> Some 0 then
                      (let (h, c3) = setTimeout (ReqTimer (rq_token conf) (rq_callback conf) (rq_id conf)) c2
                       in (Ret (rq_id conf),
                           c3\<lparr>respmux := map_option
                                 (\<lambda>m. m\<lparr>requestMap := obj_upd (requestMap m) (rq_token conf)
                                                          (\<lambda>v. v\<lparr>rq_timeout := Some h\<rparr>)\<rparr>)
                                 (respmux c3)\<rparr>))
                    else (Ret (rq_id conf), c2)))"

text \<open>
  requestOne(subject, opt_msg, opt_options, timeout, callback) with all five arguments
  given, on a client without useOldRequestStyle (oldRequestOne relies on the public
  timeout method, which is not modelled).  \<open>max\<close> and \<open>timeout\<close> are stored in
  \<open>opt_options\<close>; when that is a function, request takes it for the callback and
  reads neither.
\<close>

definition requestOne :: "jsval \<Rightarrow> jsval \<Rightarrow> nat apiopts \<Rightarrow> int \<Rightarrow> cbval \<Rightarrow> client \<Rightarrow> int ret \<times> client" where
  "requestOne subject opt_msg opt_options tmo cb c =
     (case opt_options of
        OFn f \<Rightarrow> request subject opt_msg (OFn f) cb c
      | OObj q m t \<Rightarrow> request subject opt_msg (OObj q (Some 1) (Some tmo)) cb c
      | ONone \<Rightarrow> request subject opt_msg (OObj None (Some 1) (Some tmo)) cb c)"

text \<open>The request timer set by request, when it fires.\<close>

definition fire_timer :: "nat \<Rightarrow> client \<Rightarrow> unit ret \<times> client" where
  "fire_timer h c =
     (case map_of (timers c) h of
        None \<Rightarrow> (Ret (), c)
      | Some (ReqTimer token cb rid) \<Rightarrow>
          let c1 = c\<lparr>timers := filter (\<lambda>t. fst t \<noteq> h) (timers c)\<rparr>;
              c2 = (case cb of
                      Fn k \<Rightarrow> call (CallReqErr token k (REQ_TIMEOUT_MSG_PREFIX @ show_int rid) REQ_TIMEOUT) c1
                    | _ \<Rightarrow> c1)
          in case cancelMuxRequest (TStr token) c2 of
               (Throw e, c3) \<Rightarrow> (Throw e, c3)
             | (Ret _, c3) \<Rightarrow> (Ret (), c3))"

section \<open>Delivery\<close>

text \<open>The function createResponseMux subscribes with, called with (msg, reply, subject).\<close>

definition mux_dispatch :: "chunk \<Rightarrow> string option \<Rightarrow> string \<Rightarrow> client \<Rightarrow> unit ret \<times> client" where
  "mux_dispatch m_msg m_reply m_subject c =
     (case respmux c of
        None \<Rightarrow> (Throw TypeError, c)
      | Some m \<Rightarrow>
          let token = drop (inboxPrefixLen m) m_subject
          in case getMuxRequestConfig (TStr token) m of
               None \<Rightarrow> (Ret (), c)
             | Some conf \<Rightarrow>
                 let c1 = (case rq_callback conf of
                             Fn k \<Rightarrow> call (CallReq token k m_msg m_reply) c
                           | _ \<Rightarrow> c)
                 in case rq_expected conf of
                      None \<Rightarrow> (Ret (), c1)
                    | Some e \<Rightarrow>
                        let c2 = c1\<lparr>respmux := Some (m\<lparr>requestMap :=
                                    obj_upd (requestMap m) token
                                      (\<lambda>v. v\<lparr>rq_received := rq_received v + 1\<rparr>)\<rparr>)\<rparr>
                        in if rq_received conf + 1 \<ge> e then
                             (case cancelMuxRequest (TStr token) c2 of
                                (Throw x, c3) \<Rightarrow> (Throw x, c3)
                              | (Ret _, c3) \<Rightarrow>
                                  (Ret (), emit (EvUnsubscribe (Some (subscriptionID m)) m_subject) c3))
                           else (Ret (), c2))"

text \<open>
  \<open>try { sub.callback(msg, reply, subj, sid) } catch (error) { this.emit('error', error) }\<close>
\<close>

definition invoke_sub :: "subcb \<Rightarrow> chunk \<Rightarrow> string option \<Rightarrow> string \<Rightarrow> int option \<Rightarrow> client \<Rightarrow> client" where
  "invoke_sub cb m_msg m_reply m_subj m_sid c =
     (case cb of
        SubUser (Fn k) \<Rightarrow> call (CallSub k m_msg m_reply m_subj m_sid) c
      | SubUser _ \<Rightarrow> emit (EvError TypeError None) c
      | SubMux \<Rightarrow>
          (case mux_dispatch m_msg m_reply m_subj c of
             (Throw e, c1) \<Rightarrow> emit (EvError e None) c1
           | (Ret _, c1) \<Rightarrow> c1)
      | SubOldReq (Fn k) \<Rightarrow> call (CallOldReq k m_msg m_reply) c
      | SubOldReq _ \<Rightarrow> emit (EvError TypeError None) c)"

definition truthy_subcb :: "subcb \<Rightarrow> bool" where
  "truthy_subcb cb = (case cb of SubUser u \<Rightarrow> truthy_cb u | _ \<Rightarrow> True)"

text \<open>
  processMsg in three parts.  \<open>sub\<close> is the
  object stored under the sid: the code changes it in place, also after it has been
  deleted from \<open>subs\<close>.  First \<open>if (sub.callback) { ... }\<close>:
\<close>

definition processMsg_deliver :: "sub \<Rightarrow> payload_t \<Rightarrow> client \<Rightarrow> client" where
  "processMsg_deliver sb pl c =
     (if truthy_subcb (s_callback sb)
      then invoke_sub (s_callback sb) (the (p_msg pl)) (p_reply pl) (p_subj pl) (p_sid pl) c
      else c)"

text \<open>
  then the check of the subscription timer, after \<open>sub.received += 1\<close>; it gives the
  subscription object and the client as they are afterwards:
\<close>

definition processMsg_timer :: "int \<Rightarrow> sub \<Rightarrow> client \<Rightarrow> sub \<times> client" where
  "processMsg_timer n sub1 c1 =
     (case (s_timeout sub1, s_expected sub1) of
        (Some h, Some e) \<Rightarrow>
          if s_received sub1 \<ge> e
          then (sub1\<lparr>s_timeout := None\<rparr>,
                upd_sub n (\<lambda>s. s\<lparr>s_timeout := None\<rparr>) (clearTimeout h c1))
          else (sub1, c1)
      | _ \<Rightarrow> (sub1, c1))"

text \<open>and around it the whole body of \<open>if (sub !== undefined)\<close>:\<close>

definition processMsg_sub :: "int \<Rightarrow> sub \<Rightarrow> payload_t \<Rightarrow> client \<Rightarrow> unit ret \<times> client" where
  "processMsg_sub n sub1 pl c1 =
     (let (sub2, c2) = processMsg_timer n sub1 c1
      in case s_max sub2 of
           None \<Rightarrow> (Ret (), processMsg_deliver sub2 pl c2)
         | Some m \<Rightarrow>
             if s_received sub2 = m then
               (Ret (), processMsg_deliver sub2 pl
                          (emit (EvUnsubscribe (p_sid pl) (s_subject sub2)) (del_sub n c2)))
             else if s_received sub2 > m then
               (case unsubscribe (p_sid pl) None c2 of
                  (Throw e, c3) \<Rightarrow> (Throw e, c3)
                | (Ret _, c3) \<Rightarrow>
                    (Ret (), upd_sub n (\<lambda>s. s\<lparr>s_callback := SubUser Null\<rparr>) c3))
             else (Ret (), processMsg_deliver sub2 pl c2))"

definition processMsg :: "client \<Rightarrow> unit ret \<times> client" where
  "processMsg c =
     (case payload c of
        None \<Rightarrow> (Throw TypeError, c)
      | Some pl \<Rightarrow>
     (case subs c of
        None \<Rightarrow> (Throw TypeError, c)
      | Some ss \<Rightarrow>
     (case (case p_sid pl of None \<Rightarrow> None | Some n \<Rightarrow> obj_get ss n) of
        None \<Rightarrow> (Ret (), c)
      | Some sub0 \<Rightarrow>
          processMsg_sub (the (p_sid pl)) (sub0\<lparr>s_received := s_received sub0 + 1\<rparr>) pl
            (upd_sub (the (p_sid pl)) (\<lambda>s. s\<lparr>s_received := s_received s + 1\<rparr>) c))))"

text \<open>
  The end of the AWAITING_MSG_PAYLOAD branch of processInbound, once \<open>payload.msg\<close> is
  set: \<open>processMsg(); pstate = AWAITING_CONTROL; payload = null\<close>.
\<close>

definition finish_msg :: "client \<Rightarrow> unit ret \<times> client" where
  "finish_msg c =
     (case processMsg c of
        (Throw e, c1) \<Rightarrow> (Throw e, c1)
      | (Ret _, c1) \<Rightarrow> (Ret (), c1\<lparr>pstate := AWAITING_CONTROL, payload := None\<rparr>))"

text \<open>processErr(s); \<open>None\<close> is \<open>undefined\<close> (no quoted text in the -ERR line).\<close>

definition toLowerCase :: "string \<Rightarrow> string" where
  "toLowerCase s = map (\<lambda>c. let n = (of_char c :: nat) in
       if (65 \<le> n \<and> n \<le> 90) \<or> (192 \<le> n \<and> n \<le> 222 \<and> n \<noteq> 215) then char_of (n + 32) else c) s"

text \<open>\<open>m.indexOf(needle) !== -1\<close>\<close>

fun contains :: "string \<Rightarrow> string \<Rightarrow> bool" where
  "contains [] needle = (needle = [])"
| "contains (x # xs) needle = (take (length needle) (x # xs) = needle \<or> contains xs needle)"

definition processErr :: "string option \<Rightarrow> client \<Rightarrow> client" where
  "processErr s c =
     (let m = (case s of Some t \<Rightarrow> if t \<noteq> [] then toLowerCase t else [] | None \<Rightarrow> [])
      in if contains m STALE_CONNECTION_ERR then closeStream c
         else if contains m PERMISSIONS_ERR
         then emit (EvPermissionError NATS_PROTOCOL_ERR s) c
         else closeStream (emit (EvError NATS_PROTOCOL_ERR s) c))"


text \<open>The defaults of parseOptions, and the server list it builds for the default URL.\<close>

definition default_options :: opts where
  "default_options =
     \<lparr>maxPingOut = 2, preserveBuffers = False, useOldRequestStyle = False, reconnect = True,
      maxReconnectAttempts = 10, waitOnFirstConnect = False, tls = TlsFalse,
      usercreds = False, creds_valid = False, sig = SigUndef, nkey_or_jwt = False,
      decode = (\<lambda>s. s), connect_json = ''{}'', nuids = (\<lambda>n. replicate (Suc n) (CHR ''N'')),
      json = False, stringify = (\<lambda>v. None)\<rparr>"

definition default_servers :: "server list" where
  "default_servers = [\<lparr>url = ''nats://localhost:4222'', didConnect = False, implicit = False\<rparr>]"


section \<open>Facts about the send path\<close>

text \<open>
  The commands a client has sent or still holds, in order: those written to the current
  socket, then the pending queue.
\<close>

definition sent :: "client \<Rightarrow> chunk list" where
  "sent c = (case stream c of None \<Rightarrow> [] | Some s \<Rightarrow> concat (written s))
            @ (case pending c of None \<Rightarrow> [] | Some p \<Rightarrow> p)"

lemma concat_singletons: "concat (map (\<lambda>x. [x]) p) = p"
  by (induction p) simp_all

lemma stream_write_frame [simp]:
  "closed (stream_write ws c) = closed c" "connected (stream_write ws c) = connected c"
  "pongs (stream_write ws c) = pongs c" "log (stream_write ws c) = log c"
  "subs (stream_write ws c) = subs c" "respmux (stream_write ws c) = respmux c"
  "ssid (stream_write ws c) = ssid c" "timers (stream_write ws c) = timers c"
  "next_timer (stream_write ws c) = next_timer c" "nuid_n (stream_write ws c) = nuid_n c"
  "options (stream_write ws c) = options c" "pout (stream_write ws c) = pout c"
  "pstate (stream_write ws c) = pstate c" "payload (stream_write ws c) = payload c"
  "inbound (stream_write ws c) = inbound c" "infoReceived (stream_write ws c) = infoReceived c"
  "info (stream_write ws c) = info c" "pingTimer (stream_write ws c) = pingTimer c"
  "servers (stream_write ws c) = servers c" "currentServer (stream_write ws c) = currentServer c"
  "listeners (stream_write ws c) = listeners c" "flushScheduled (stream_write ws c) = flushScheduled c"
  "reconnectTimers (stream_write ws c) = reconnectTimers c" "destroyed (stream_write ws c) = destroyed c"
  "unsolicited (stream_write ws c) = unsolicited c" "wasConnected (stream_write ws c) = wasConnected c"
  "reconnecting (stream_write ws c) = reconnecting c" "reconnects (stream_write ws c) = reconnects c"
  "pBufs (stream_write ws c) = pBufs c" "pending (stream_write ws c) = pending c"
  "pSize (stream_write ws c) = pSize c"
  by (simp_all add: stream_write_def split: option.split)

lemma stream_write_null [simp]:
  "(stream (stream_write ws c) = None) = (stream c = None)"
  "(\<exists>y. stream (stream_write ws c) = Some y) = (\<exists>y. stream c = Some y)"
  by (auto simp: stream_write_def split: option.split)

lemma flushPending_frame [simp]:
  "closed (flushPending c) = closed c" "connected (flushPending c) = connected c"
  "pongs (flushPending c) = pongs c" "log (flushPending c) = log c"
  "subs (flushPending c) = subs c" "respmux (flushPending c) = respmux c"
  "ssid (flushPending c) = ssid c" "timers (flushPending c) = timers c"
  "next_timer (flushPending c) = next_timer c" "nuid_n (flushPending c) = nuid_n c"
  "options (flushPending c) = options c" "pout (flushPending c) = pout c"
  "pstate (flushPending c) = pstate c" "payload (flushPending c) = payload c"
  "inbound (flushPending c) = inbound c" "infoReceived (flushPending c) = infoReceived c"
  "info (flushPending c) = info c" "pingTimer (flushPending c) = pingTimer c"
  "servers (flushPending c) = servers c" "currentServer (flushPending c) = currentServer c"
  "listeners (flushPending c) = listeners c" "flushScheduled (flushPending c) = flushScheduled c"
  "reconnectTimers (flushPending c) = reconnectTimers c" "destroyed (flushPending c) = destroyed c"
  "unsolicited (flushPending c) = unsolicited c" "wasConnected (flushPending c) = wasConnected c"
  "reconnecting (flushPending c) = reconnecting c" "reconnects (flushPending c) = reconnects c"
  "pBufs (flushPending c) = pBufs c"
  by (simp_all add: flushPending_def split: option.split)

lemma flushPending_null [simp]:
  "(pending (flushPending c) = None) = (pending c = None)"
  "(stream (flushPending c) = None) = (stream c = None)"
  "(\<exists>y. pending (flushPending c) = Some y) = (\<exists>y. pending c = Some y)"
  "(\<exists>y. stream (flushPending c) = Some y) = (\<exists>y. stream c = Some y)"
  by (auto simp: flushPending_def split: option.split)

lemma sendCommand_frame [simp]:
  "closed (sendCommand cmd c) = closed c" "connected (sendCommand cmd c) = connected c"
  "pongs (sendCommand cmd c) = pongs c" "log (sendCommand cmd c) = log c"
  "subs (sendCommand cmd c) = subs c" "respmux (sendCommand cmd c) = respmux c"
  "ssid (sendCommand cmd c) = ssid c" "timers (sendCommand cmd c) = timers c"
  "next_timer (sendCommand cmd c) = next_timer c" "nuid_n (sendCommand cmd c) = nuid_n c"
  "options (sendCommand cmd c) = options c" "pout (sendCommand cmd c) = pout c"
  "pstate (sendCommand cmd c) = pstate c" "payload (sendCommand cmd c) = payload c"
  "inbound (sendCommand cmd c) = inbound c" "infoReceived (sendCommand cmd c) = infoReceived c"
  "info (sendCommand cmd c) = info c" "pingTimer (sendCommand cmd c) = pingTimer c"
  "servers (sendCommand cmd c) = servers c" "currentServer (sendCommand cmd c) = currentServer c"
  "listeners (sendCommand cmd c) = listeners c"
  "reconnectTimers (sendCommand cmd c) = reconnectTimers c" "destroyed (sendCommand cmd c) = destroyed c"
  "unsolicited (sendCommand cmd c) = unsolicited c" "wasConnected (sendCommand cmd c) = wasConnected c"
  "reconnecting (sendCommand cmd c) = reconnecting c" "reconnects (sendCommand cmd c) = reconnects c"
  by (simp_all add: sendCommand_def Let_def split: option.split chunk.split)

lemma sendCommand_null [simp]:
  "(pending (sendCommand cmd c) = None) = (pending c = None)"
  "(stream (sendCommand cmd c) = None) = (stream c = None)"
  "(\<exists>y. pending (sendCommand cmd c) = Some y) = (\<exists>y. pending c = Some y)"
  "(\<exists>y. stream (sendCommand cmd c) = Some y) = (\<exists>y. stream c = Some y)"
  by (auto simp: sendCommand_def Let_def split: option.split chunk.split)

lemma sent_stream_write:
  "stream c = Some s \<Longrightarrow> sent (stream_write ws c) = concat (written s) @ concat ws @ (case pending c of None \<Rightarrow> [] | Some p \<Rightarrow> p)"
  by (simp add: sent_def stream_write_def)

lemma sent_flushPending:
  assumes "connected c \<longrightarrow> stream c \<noteq> None"
  shows "sent (flushPending c) = sent c"
proof (cases "pending c")
  case None
  then show ?thesis by (simp add: flushPending_def)
next
  case (Some p)
  show ?thesis
  proof (cases "connected c = False \<or> p = [] \<or> infoReceived c \<noteq> True")
    case True
    then show ?thesis using Some by (simp add: flushPending_def)
  next
    case False
    then obtain s where s: "stream c = Some s" using assms by auto
    let ?c0 = "c\<lparr>pending := Some [], pSize := 0\<rparr>"
    have s0: "stream ?c0 = Some s" using s by simp
    have a: "sent (stream_write [p] ?c0) = sent c"
      using sent_stream_write [OF s0, of "[p]"] s Some by (simp add: sent_def)
    have b: "sent (stream_write (map (\<lambda>x. [x]) p) ?c0) = sent c"
      using sent_stream_write [OF s0, of "map (\<lambda>x. [x]) p"] s Some
      by (simp add: sent_def concat_singletons)
    show ?thesis using False Some a b by (simp add: flushPending_def)
  qed
qed

lemma sent_sendCommand:
  assumes "\<not> closed c" "pending c = Some p" "connected c \<longrightarrow> stream c \<noteq> None"
  shows "sent (sendCommand cmd c) = sent c @ [cmd]"
proof (cases cmd)
  case (Str s)
  show ?thesis using assms Str
    apply (simp add: sendCommand_def Let_def sent_flushPending)
    apply (simp add: sent_def)
    done
next
  case (Buf b)
  show ?thesis using assms Buf
    apply (simp add: sendCommand_def Let_def sent_flushPending)
    apply (simp add: sent_def)
    done
qed

section \<open>Closing the client\<close>

lemma closeStream_closed:
  "closed c \<Longrightarrow> closeStream c =
     c\<lparr>stream := None, destroyed := destroyed c + (if stream c = None then 0 else 1),
       pongs := None, pout := 0, pending := None, pSize := 0, connected := False,
       inbound := None\<rparr>"
  unfolding closeStream_def by (cases "stream c") (simp_all add: Let_def)

lemma close_fields:
  "close c =
     c\<lparr>pingTimer := False, closed := True, listeners := False, stream := None,
       destroyed := destroyed c + (if stream c = None then 0 else 1),
       pongs := None, pout := 0, pending := None, pSize := 0, connected := False,
       inbound := None, ssid := - 1, subs := None, pstate := - 1\<rparr>"
  unfolding close_def by (cases "pingTimer c") (simp_all add: closeStream_closed Let_def)

text \<open>
  C8.  close is idempotent.  The first call clears the ping timer, destroys the socket
  if there is one (and leaves \<open>stream\<close> null), marks the client closed and sets \<open>subs\<close>,
  \<open>pending\<close> and \<open>pongs\<close> to null.  close has no failing path, and a second call
  returns the state the first call left, field for field.
\<close>

theorem close_idempotent:
  "close (close c) = close c
   \<and> pingTimer (close c) = False
   \<and> stream (close c) = None
   \<and> destroyed (close c) = destroyed c + (if stream c = None then 0 else 1)
   \<and> closed (close c) = True
   \<and> subs (close c) = None \<and> pending (close c) = None \<and> pongs (close c) = None"
  by (simp add: close_fields)

section \<open>unsubscribe without effect\<close>

text \<open>
  C10.  unsubscribe with a falsy sid (\<open>undefined\<close> or 0), or on a closed client,
  returns at once: the whole client state is unchanged, so no UNSUB is queued and
  \<open>subs\<close>, \<open>pending\<close>, \<open>pSize\<close> and \<open>pongs\<close> are what they were.
\<close>

theorem unsubscribe_falsy_or_closed:
  "sid = None \<or> sid = Some 0 \<or> closed c \<Longrightarrow> unsubscribe sid opt_max c = (Ret (), c)"
  by (auto simp: unsubscribe_def split: option.splits)

theorem unsubscribe_falsy_or_closed_witness:
  "unsubscribe (Some 0) (Some 3) (new_client default_options default_servers)
     = (Ret (), new_client default_options default_servers)
   \<and> unsubscribe (Some 5) None (close (new_client default_options default_servers))
     = (Ret (), close (new_client default_options default_servers))"
  using unsubscribe_falsy_or_closed [of "Some 0" "new_client default_options default_servers" "Some 3"]
        unsubscribe_falsy_or_closed [of "Some 5" "close (new_client default_options default_servers)" None]
  by (simp add: close_fields)


section \<open>publish with a missing subject\<close>









lemma new_client_default:
  "new_client default_options default_servers =
     (blank default_options default_servers)
       \<lparr>ssid := 1, subs := Some [], pending := Some [], pongs := Some [],
        currentServer := Some (hd default_servers), stream := Some new_stream\<rparr>"
  by (simp add: new_client_def createConnection_def initState_def blank_def selectServer_def
        default_servers_def Let_def AWAITING_CONTROL_def)






section \<open>The pending queue across createConnection\<close>

lemma rebuild_acc:
  "rebuild pgs cmds i (pend, sz, pong) =
     (case rebuild pgs cmds i ([], 0, []) of (a, b, d) \<Rightarrow> (pend @ a, sz + b, pong @ d))"
proof (induction cmds arbitrary: i pend sz pong)
  case Nil
  then show ?case by simp
next
  case (Cons cmd cmds)
  note ih = Cons.IH
  let ?ping = "cmd = Str PING_REQUEST \<and> pgs \<noteq> None \<and> i < length (the pgs)"
  consider (keep) "?ping" "the pgs ! i \<noteq> PongUser Undefined"
    | (drop) "?ping" "the pgs ! i = PongUser Undefined"
    | (pub) "\<not> ?ping" "is_PUB cmd"
    | (other) "\<not> ?ping" "\<not> is_PUB cmd"
    by blast
  then show ?case
  proof cases
    case keep
    have L: "rebuild pgs (cmd # cmds) i (pend, sz, pong)
               = rebuild pgs cmds (Suc i) (pend @ [cmd], sz + cmdLen cmd, pong @ [the pgs ! i])"
      and R: "rebuild pgs (cmd # cmds) i ([], 0, [])
               = rebuild pgs cmds (Suc i) ([cmd], cmdLen cmd, [the pgs ! i])"
      using keep by (simp_all add: Let_def)
    show ?thesis unfolding L R
      using ih [of "Suc i" "pend @ [cmd]" "sz + cmdLen cmd" "pong @ [the pgs ! i]"]
            ih [of "Suc i" "[cmd]" "cmdLen cmd" "[the pgs ! i]"]
      by (simp split: prod.splits)
  next
    case drop
    have L: "rebuild pgs (cmd # cmds) i (pend, sz, pong) = rebuild pgs cmds (Suc i) (pend, sz, pong)"
      and R: "rebuild pgs (cmd # cmds) i ([], 0, []) = rebuild pgs cmds (Suc i) ([], 0, [])"
      using drop by (simp_all add: Let_def)
    show ?thesis unfolding L R using ih [of "Suc i" pend sz pong] by simp
  next
    case pub
    have L: "rebuild pgs (cmd # cmds) i (pend, sz, pong)
               = rebuild pgs cmds i (pend @ [cmd], sz + cmdLen cmd, pong)"
      and R: "rebuild pgs (cmd # cmds) i ([], 0, []) = rebuild pgs cmds i ([cmd], cmdLen cmd, [])"
      using pub by (auto simp: Let_def)
    show ?thesis unfolding L R
      using ih [of i "pend @ [cmd]" "sz + cmdLen cmd" pong] ih [of i "[cmd]" "cmdLen cmd" "[]"]
      by (simp split: prod.splits)
  next
    case other
    have L: "rebuild pgs (cmd # cmds) i (pend, sz, pong) = rebuild pgs cmds i (pend, sz, pong)"
      and R: "rebuild pgs (cmd # cmds) i ([], 0, []) = rebuild pgs cmds i ([], 0, [])"
      using other by (auto simp: Let_def)
    show ?thesis unfolding L R using ih [of i pend sz pong] by simp
  qed
qed

lemma rebuild_kept:
  "rebuild pgs cmds i ([], 0, []) = (pend, sz, pong) \<Longrightarrow>
     sz = sum_list (map cmdLen pend)
     \<and> (\<forall>x \<in> set pend. x = Str PING_REQUEST \<or> is_PUB x)
     \<and> filter is_PUB pend = filter is_PUB cmds"
proof (induction cmds arbitrary: i pend sz pong)
  case Nil
  then show ?case by simp
next
  case (Cons cmd cmds)
  obtain a b d where r1: "rebuild pgs cmds (Suc i) ([], 0, []) = (a, b, d)" by (cases "rebuild pgs cmds (Suc i) ([], 0, [])") auto
  obtain a' b' d' where r0: "rebuild pgs cmds i ([], 0, []) = (a', b', d')" by (cases "rebuild pgs cmds i ([], 0, [])") auto
  note ih1 = Cons.IH [OF r1] and ih0 = Cons.IH [OF r0]
  have np: "\<not> is_PUB (Str PING_REQUEST)" by (simp add: is_PUB_def PING_REQUEST_def)
  let ?ping = "cmd = Str PING_REQUEST \<and> pgs \<noteq> None \<and> i < length (the pgs)"
  consider (keep) "?ping" "the pgs ! i \<noteq> PongUser Undefined"
    | (drop) "?ping" "the pgs ! i = PongUser Undefined"
    | (pub) "\<not> ?ping" "is_PUB cmd"
    | (other) "\<not> ?ping" "\<not> is_PUB cmd"
    by blast
  then show ?case
  proof cases
    case keep
    have "rebuild pgs (cmd # cmds) i ([], 0, []) = rebuild pgs cmds (Suc i) ([cmd], cmdLen cmd, [the pgs ! i])"
      using keep by (simp add: Let_def)
    also have "\<dots> = ([cmd] @ a, cmdLen cmd + b, [the pgs ! i] @ d)"
      by (subst rebuild_acc) (simp add: r1)
    finally show ?thesis using Cons.prems ih1 keep np by auto
  next
    case drop
    have "rebuild pgs (cmd # cmds) i ([], 0, []) = rebuild pgs cmds (Suc i) ([], 0, [])"
      using drop by (simp add: Let_def)
    then show ?thesis using Cons.prems ih1 drop np r1 by auto
  next
    case pub
    have "rebuild pgs (cmd # cmds) i ([], 0, []) = rebuild pgs cmds i ([cmd], cmdLen cmd, [])"
      using pub by (auto simp: Let_def)
    also have "\<dots> = ([cmd] @ a', cmdLen cmd + b', [] @ d')"
      by (subst rebuild_acc) (simp add: r0)
    finally show ?thesis using Cons.prems ih0 pub by auto
  next
    case other
    have "rebuild pgs (cmd # cmds) i ([], 0, []) = rebuild pgs cmds i ([], 0, [])"
      using other by (auto simp: Let_def)
    then show ?thesis using Cons.prems ih0 other r0 by auto
  qed
qed

lemma createConnection_pending:
  "pending c = Some p \<Longrightarrow> pending (snd (createConnection c)) = Some pend' \<Longrightarrow>
     pSize (snd (createConnection c)) = sum_list (map cmdLen pend')
     \<and> (\<forall>x \<in> set pend'. x = Str PING_REQUEST \<or> is_PUB x)
     \<and> filter is_PUB pend' = filter is_PUB p"
proof -
  assume p: "pending c = Some p" and q: "pending (snd (createConnection c)) = Some pend'"
  obtain a b d where r: "rebuild (pongs c) p 0 ([], 0, []) = (a, b, d)"
    by (cases "rebuild (pongs c) p 0 ([], 0, [])") auto
  have "pending (snd (createConnection c)) = Some a \<and> pSize (snd (createConnection c)) = b"
    using p r by (cases "servers c"; cases "stream c") (simp_all add: createConnection_def selectServer_def Let_def)
  then show ?thesis using rebuild_kept [OF r] q by simp
qed

text \<open>
  C3.  The rebuild keeps the PUB commands queued as strings and the PINGs whose pong
  slot is not \<open>undefined\<close>, in order, and \<open>pSize\<close> is the sum of the kept lengths
  (\<open>createConnection_pending\<close>).  A PUB queued as a Buffer is not kept: the test
  \<open>cmd[0] === 'P'\<close> compares a byte with a string.  Here a Buffer payload is published
  on a fresh client and the next createConnection empties the queue, while the same
  payload published as a string survives.
\<close>

theorem createConnection_drops_buffer_PUB:
  "pending (snd (publish (JStr ''foo'') (JBuf ''hi'') JUndef Undefined
                  (new_client default_options default_servers)))
     = Some [Buf (''PUB foo 2'' @ CR_LF @ ''hi'' @ CR_LF)]
   \<and> pending (snd (createConnection (snd (publish (JStr ''foo'') (JBuf ''hi'') JUndef Undefined
                  (new_client default_options default_servers))))) = Some []
   \<and> pSize (snd (createConnection (snd (publish (JStr ''foo'') (JBuf ''hi'') JUndef Undefined
                  (new_client default_options default_servers))))) = 0
   \<and> pending (snd (createConnection (snd (publish (JStr ''foo'') (JStr ''hi'') JUndef Undefined
                  (new_client default_options default_servers)))))
     = Some [Str (''PUB foo 2'' @ CR_LF @ ''hi'' @ CR_LF)]"
  by code_simp


section \<open>Runs of a client\<close>

text \<open>
  What happens to a client, one entry at a time: a call of the public API by the
  application, the delivery of a complete message by the parser (while the client is
  not closed, as the parser loop requires), or the firing of a request timer.  A call
  that throws leaves the changes it made before, and the run goes on.
\<close>

text \<open>
  \<open>client.payload\<close> when a message is complete: subject, sid and reply of the MSG
  line, and the payload \<open>msg\<close> of the declared size.
\<close>

definition msg_payload :: "string \<Rightarrow> int option \<Rightarrow> string option \<Rightarrow> chunk \<Rightarrow> payload_t" where
  "msg_payload sbj sid rep m =
     \<lparr>p_subj = sbj, p_sid = sid, p_reply = rep,
      p_size = (case m of Str s \<Rightarrow> length s | Buf b \<Rightarrow> length b),
      p_psize = (case m of Str s \<Rightarrow> length s | Buf b \<Rightarrow> length b) + CR_LF_LEN,
      p_chunks = None, p_msg = Some m\<rparr>"

datatype act =
    Subscribe string "cbval apiopts" cbval
  | Unsubscribe "int option" "int option"
  | Publish jsval jsval jsval cbval
  | Flush cbval
  | Request jsval jsval "nat apiopts" cbval
  | RequestOne jsval jsval "nat apiopts" int cbval
  | Close
  | Deliver string "int option" "string option" chunk
  | Fire nat

datatype result = RSid int | RReq int | RUnit | RThrow string

definition ret_unit :: "unit ret \<times> client \<Rightarrow> result \<times> client" where
  "ret_unit rc = (case rc of (Throw e, c) \<Rightarrow> (RThrow e, c) | (Ret _, c) \<Rightarrow> (RUnit, c))"

fun exec :: "act \<Rightarrow> client \<Rightarrow> result \<times> client" where
  "exec (Subscribe sbj opts cb) c =
     (case subscribe sbj (map_apiopts SubUser opts) (SubUser cb) c of
        (Throw e, c1) \<Rightarrow> (RThrow e, c1)
      | (Ret n, c1) \<Rightarrow> (RSid n, c1))"
| "exec (Unsubscribe sid opt_max) c = ret_unit (unsubscribe sid opt_max c)"
| "exec (Publish sbj m rep cb) c = ret_unit (publish sbj m rep cb c)"
| "exec (Flush cb) c = ret_unit (flush cb c)"
| "exec (Request sbj m opts cb) c =
     (case request sbj m opts cb c of
        (Throw e, c1) \<Rightarrow> (RThrow e, c1)
      | (Ret n, c1) \<Rightarrow> (RReq n, c1))"
| "exec (RequestOne sbj m opts t cb) c =
     (case requestOne sbj m opts t cb c of
        (Throw e, c1) \<Rightarrow> (RThrow e, c1)
      | (Ret n, c1) \<Rightarrow> (RReq n, c1))"
| "exec Close c = (RUnit, close c)"
| "exec (Deliver sbj sid rep m) c =
     (if closed c then (RUnit, c)
      else ret_unit (finish_msg (c\<lparr>payload := Some (msg_payload sbj sid rep m)\<rparr>)))"
| "exec (Fire h) c = ret_unit (fire_timer h c)"

fun run :: "client \<Rightarrow> act list \<Rightarrow> result list \<times> client" where
  "run c [] = ([], c)"
| "run c (a # as) =
     (case exec a c of (r, c1) \<Rightarrow> (case run c1 as of (rs, c2) \<Rightarrow> (r # rs, c2)))"

definition sids_of :: "result list \<Rightarrow> int list" where
  "sids_of rs = concat (map (\<lambda>r. case r of RSid n \<Rightarrow> [n] | _ \<Rightarrow> []) rs)"

definition reqids_of :: "result list \<Rightarrow> int list" where
  "reqids_of rs = concat (map (\<lambda>r. case r of RReq n \<Rightarrow> [n] | _ \<Rightarrow> []) rs)"

text \<open>The id the next mux request gets.\<close>

definition nid :: "client \<Rightarrow> int" where
  "nid c = (case respmux c of None \<Rightarrow> - 1 | Some m \<Rightarrow> nextID m)"

lemma call_frame [simp]:
  "closed (call e c) = closed c" "ssid (call e c) = ssid c" "respmux (call e c) = respmux c"
  "options (call e c) = options c" "subs (call e c) = subs c" "timers (call e c) = timers c"
  "pending (call e c) = pending c" "pongs (call e c) = pongs c" "stream (call e c) = stream c"
  "connected (call e c) = connected c" "next_timer (call e c) = next_timer c"
  "nuid_n (call e c) = nuid_n c" "log (call e c) = log c @ [e]"
  by (simp_all add: call_def)

lemma emit_frame [simp]:
  "closed (emit e c) = closed c" "ssid (emit e c) = ssid c" "respmux (emit e c) = respmux c"
  "options (emit e c) = options c" "subs (emit e c) = subs c" "timers (emit e c) = timers c"
  "pending (emit e c) = pending c" "pongs (emit e c) = pongs c" "stream (emit e c) = stream c"
  "connected (emit e c) = connected c" "next_timer (emit e c) = next_timer c"
  "nuid_n (emit e c) = nuid_n c" "log (emit e c) = log c @ [Emit e]"
  by (simp_all add: emit_def)

lemma clearTimeout_frame [simp]:
  "closed (clearTimeout h c) = closed c" "ssid (clearTimeout h c) = ssid c"
  "respmux (clearTimeout h c) = respmux c" "options (clearTimeout h c) = options c"
  "subs (clearTimeout h c) = subs c" "pending (clearTimeout h c) = pending c"
  "pongs (clearTimeout h c) = pongs c" "stream (clearTimeout h c) = stream c"
  "connected (clearTimeout h c) = connected c" "next_timer (clearTimeout h c) = next_timer c"
  "nuid_n (clearTimeout h c) = nuid_n c" "log (clearTimeout h c) = log c"
  by (simp_all add: clearTimeout_def)

lemma upd_sub_frame [simp]:
  "closed (upd_sub n f c) = closed c" "ssid (upd_sub n f c) = ssid c"
  "respmux (upd_sub n f c) = respmux c" "options (upd_sub n f c) = options c"
  "timers (upd_sub n f c) = timers c" "pending (upd_sub n f c) = pending c"
  "pongs (upd_sub n f c) = pongs c" "stream (upd_sub n f c) = stream c"
  "connected (upd_sub n f c) = connected c" "next_timer (upd_sub n f c) = next_timer c"
  "nuid_n (upd_sub n f c) = nuid_n c" "log (upd_sub n f c) = log c"
  by (simp_all add: upd_sub_def)

lemma del_sub_frame [simp]:
  "closed (del_sub n c) = closed c" "ssid (del_sub n c) = ssid c"
  "respmux (del_sub n c) = respmux c" "options (del_sub n c) = options c"
  "timers (del_sub n c) = timers c" "pending (del_sub n c) = pending c"
  "pongs (del_sub n c) = pongs c" "stream (del_sub n c) = stream c"
  "connected (del_sub n c) = connected c" "next_timer (del_sub n c) = next_timer c"
  "nuid_n (del_sub n c) = nuid_n c" "log (del_sub n c) = log c"
  by (simp_all add: del_sub_def)

section \<open>What a call leaves unchanged\<close>

definition is_req :: "effect \<Rightarrow> bool" where
  "is_req e = (case e of CallReq _ _ _ _ \<Rightarrow> True | CallReqErr _ _ _ _ \<Rightarrow> True | _ \<Rightarrow> False)"

definition reqlog :: "client \<Rightarrow> effect list" where
  "reqlog c = filter is_req (log c)"

text \<open>The part of the state that sending and flushing leave alone.\<close>

definition core :: "client \<Rightarrow> bool \<times> int \<times> respmux_t option \<times> opts \<times> (int \<times> sub) list option
     \<times> (nat \<times> timer) list \<times> nat \<times> nat \<times> effect list" where
  "core c = (closed c, ssid c, respmux c, options c, subs c, timers c, next_timer c, nuid_n c, reqlog c)"

lemma core_eqD:
  assumes "core c' = core c"
  shows "closed c' = closed c" "ssid c' = ssid c" "respmux c' = respmux c" "options c' = options c"
    "subs c' = subs c" "timers c' = timers c" "next_timer c' = next_timer c" "nuid_n c' = nuid_n c"
    "reqlog c' = reqlog c" "nid c' = nid c"
  using assms by (simp_all add: core_def nid_def)

lemma core_basic [simp]:
  "core (sendCommand cmd c) = core c" "core (flushPending c) = core c"
  "core (c\<lparr>pongs := q\<rparr>) = core c"
  "core (c\<lparr>pstate := ps, payload := pl\<rparr>) = core c"
  by (simp_all add: core_def reqlog_def)

lemma core_call:
  "\<not> is_req e \<Longrightarrow> core (call e c) = core c"
  by (simp add: core_def reqlog_def call_def)

lemma core_emit [simp]: "core (emit ev c) = core c"
  by (simp add: core_def reqlog_def emit_def is_req_def)

lemma is_req_simps [simp]:
  "\<not> is_req (CallErr k e)" "\<not> is_req (Emit ev)" "\<not> is_req (CallSub k m r s i)"
  "\<not> is_req (CallOldReq k m r)" "\<not> is_req (CallPong k)"
  "is_req (CallReq t k m r)" "is_req (CallReqErr t k a b)"
  by (simp_all add: is_req_def)

lemma flush_core: "core (snd (flush cb c)) = core c"
  by (cases cb; cases "pongs c") (simp_all add: flush_def core_call)

lemma publish_send_core: "core (snd (publish_send a b r cb c)) = core c"
  by (cases "pub_command (options c) a b r") (simp_all add: publish_send_def Let_def flush_core)

lemma publish_reply_core: "core (snd (publish_reply a b r cb c)) = core c"
  by (cases r; cases cb) (simp_all add: publish_reply_def publish_send_core core_call)

lemma publish_core: "core (snd (publish a b r cb c)) = core c"
proof -
  obtain s o_cb where so: "(case a of JFun f \<Rightarrow> (JUndef, Fn f) | _ \<Rightarrow> (a, cb)) = (s, o_cb)"
    by (cases "(case a of JFun f \<Rightarrow> (JUndef, Fn f) | _ \<Rightarrow> (a, cb))") auto
  let ?m = "pub_msg (options c) b"
  let ?g = "if \<not> truthy s then (case o_cb of Fn k \<Rightarrow> (Ret (), call (CallErr k BAD_SUBJECT) c)
                                 | _ \<Rightarrow> (Throw BAD_SUBJECT, c)) else (Ret (), c)"
  have g: "core (snd ?g) = core c" by (cases o_cb) (simp_all add: core_call)
  obtain r1 c1 where rc1: "?g = (r1, c1)" by (cases ?g) auto
  have c1: "core c1 = core c" using g rc1 by simp
  have "core (snd (publish a b r cb c)) = core c1"
    unfolding publish_def so Let_def prod.case rc1
    by (cases r1; cases ?m; cases o_cb) (simp_all add: publish_reply_core core_call)
  then show ?thesis using c1 by simp
qed

definition core1 :: "client \<Rightarrow> bool \<times> int \<times> opts \<times> int" where
  "core1 c = (closed c, ssid c, options c, nid c)"

lemma core_core1: "core c' = core c \<Longrightarrow> core1 c' = core1 c"
  by (simp add: core_def core1_def nid_def)

lemma core1_simps [simp]:
  "core1 (call e c) = core1 c" "core1 (emit ev c) = core1 c" "core1 (clearTimeout h c) = core1 c"
  "core1 (upd_sub n f c) = core1 c" "core1 (del_sub n c) = core1 c"
  "core1 (sendCommand cmd c) = core1 c"
  "core1 (c\<lparr>pstate := ps, payload := pl\<rparr>) = core1 c"
  "core1 (c\<lparr>payload := pl\<rparr>) = core1 c"
  by (simp_all add: core1_def nid_def)

lemma core1_timers [simp]: "core1 (c\<lparr>timers := t\<rparr>) = core1 c"
  by (simp add: core1_def nid_def)

lemma core1_requestMap [simp]:
  "respmux c = Some m \<Longrightarrow> core1 (c\<lparr>respmux := Some (m\<lparr>requestMap := rm\<rparr>)\<rparr>) = core1 c"
  by (simp add: core1_def nid_def)

lemma cancelMuxRequest_core1: "core1 (snd (cancelMuxRequest t c)) = core1 c"
proof (cases "respmux c")
  case None
  then show ?thesis by (simp add: cancelMuxRequest_def)
next
  case (Some m)
  show ?thesis
  proof (cases "getMuxRequestConfig t m")
    case None
    then show ?thesis using Some by (simp add: cancelMuxRequest_def)
  next
    case (Some conf)
    have "core1 (c1\<lparr>respmux := Some (m\<lparr>requestMap := rm\<rparr>)\<rparr>) = core1 c"
      if "core1 c1 = core1 c" for c1 rm
      using that \<open>respmux c = Some m\<close> by (simp add: core1_def nid_def)
    then show ?thesis using Some \<open>respmux c = Some m\<close>
      by (cases "rq_timeout conf") (simp_all add: cancelMuxRequest_def Let_def)
  qed
qed

lemma unsubscribe_core1: "core1 (snd (unsubscribe sid opt_max c)) = core1 c"
proof (cases sid)
  case None
  then show ?thesis by (simp add: unsubscribe_def)
next
  case (Some n)
  consider (z) "n = 0 \<or> closed c" | (neg) "\<not> (n = 0 \<or> closed c)" "n < 0"
    | (pos) "\<not> (n = 0 \<or> closed c)" "\<not> n < 0" by blast
  then show ?thesis
  proof cases
    case z
    then show ?thesis using Some by (auto simp: unsubscribe_def)
  next
    case neg
    obtain r c' where rc: "cancelMuxRequest (TNum n) c = (r, c')" by (cases "cancelMuxRequest (TNum n) c") auto
    have "core1 c' = core1 c" using cancelMuxRequest_core1 [of "TNum n" c] rc by simp
    then show ?thesis using Some neg rc by (cases r) (simp_all add: unsubscribe_def)
  next
    case pos
    have t: "core1 (snd (unsubscribe_tail n opt_max c1)) = core1 c1" for c1
      by (simp add: unsubscribe_tail_def Let_def split: option.split)
    show ?thesis using Some pos by (simp add: unsubscribe_def Let_def t)
  qed
qed

lemma core1_ssid_upd:
  "core1 c' = core1 (c\<lparr>ssid := k\<rparr>) \<Longrightarrow>
     closed c' = closed c \<and> options c' = options c \<and> nid c' = nid c \<and> ssid c' = k"
  by (simp add: core1_def nid_def)

lemma core1_D:
  "core1 c' = core1 c \<Longrightarrow>
     closed c' = closed c \<and> options c' = options c \<and> nid c' = nid c \<and> ssid c' = ssid c"
  by (simp add: core1_def)

lemma subscribe_max_core1:
  "core1 (snd (subscribe_max mx c)) = core1 c"
  "fst (subscribe_max mx c) = Ret n \<Longrightarrow> n = ssid c"
proof -
  obtain r k where rk: "unsubscribe (Some (ssid c)) mx c = (r, k)"
    by (cases "unsubscribe (Some (ssid c)) mx c") auto
  have k: "core1 k = core1 c" using unsubscribe_core1 [of "Some (ssid c)" mx c] rk by simp
  show "core1 (snd (subscribe_max mx c)) = core1 c"
    using rk k by (cases r) (simp_all add: subscribe_max_def)
  show "fst (subscribe_max mx c) = Ret n \<Longrightarrow> n = ssid c"
    using rk k by (cases r) (auto simp: subscribe_max_def core1_def split: if_splits)
qed

lemma subscribe_open:
  assumes "\<not> closed c"
  shows "core1 (snd (subscribe sbj opts cb c)) = core1 (c\<lparr>ssid := ssid c + 1\<rparr>)"
    and "fst (subscribe sbj opts cb c) = Ret n \<Longrightarrow> n = ssid c + 1"
proof -
  obtain cb' qg mx where o: "(case opts of OFn f \<Rightarrow> (f, None, None) | OObj q m t \<Rightarrow> (cb, q, m)
                             | ONone \<Rightarrow> (cb, None, None)) = (cb', qg, mx)"
    by (cases "(case opts of OFn f \<Rightarrow> (f, None, None) | OObj q m t \<Rightarrow> (cb, q, m)
                             | ONone \<Rightarrow> (cb, None, None))") auto
  let ?c1 = "c\<lparr>ssid := ssid c + 1\<rparr>"
  have k: "core1 (c\<lparr>ssid := ssid c + 1, subs := x\<rparr>) = core1 ?c1" for x
    by (simp add: core1_def nid_def)
  have k2: "ssid c4 = ssid c + 1" if "core1 c4 = core1 ?c1" for c4
    using that by (simp add: core1_def)
  show "core1 (snd (subscribe sbj opts cb c)) = core1 ?c1"
    using assms o
    by (cases "subs c"; cases qg) (simp_all add: subscribe_def Let_def k subscribe_max_core1(1))
  show "fst (subscribe sbj opts cb c) = Ret n \<Longrightarrow> n = ssid c + 1"
    using assms o
    by (cases "subs c"; cases qg)
       (auto simp: subscribe_def Let_def dest!: subscribe_max_core1(2))
qed

lemma subscribe_closed: "closed c \<Longrightarrow> subscribe sbj opts cb c = (Throw CONN_CLOSED, c)"
  by (simp add: subscribe_def)

lemma createResponseMux_core1:
  "closed (snd (createResponseMux c)) = closed c" "options (snd (createResponseMux c)) = options c"
  "nid (snd (createResponseMux c)) = nid c"
  "ssid c \<le> ssid (snd (createResponseMux c)) \<or> closed c"
  "respmux (snd (createResponseMux c)) = None \<Longrightarrow> \<exists>e. fst (createResponseMux c) = Throw e"
proof -
  let ?c1 = "c\<lparr>nuid_n := nuid_n c + 1\<rparr>"
  let ?g = "(''_INBOX.'' @ nuids (options c) (nuid_n c)) @ ''.*''"
  obtain r k where rk: "subscribe ?g (OFn SubMux) (SubUser Undefined) ?c1 = (r, k)"
    by (cases "subscribe ?g (OFn SubMux) (SubUser Undefined) ?c1") auto
  have c1: "core1 ?c1 = core1 c" by (simp add: core1_def nid_def)
  have kk: "closed k = closed c \<and> options k = options c \<and> nid k = nid c \<and> (ssid c \<le> ssid k \<or> closed c)"
  proof (cases "closed c")
    case True
    then show ?thesis using rk subscribe_closed [of ?c1] by (auto simp: nid_def)
  next
    case False
    then have "core1 k = core1 (?c1\<lparr>ssid := ssid ?c1 + 1\<rparr>)"
      using subscribe_open(1) [of ?c1 ?g "OFn SubMux" "SubUser Undefined"] rk by simp
    then show ?thesis by (simp add: core1_def nid_def)
  qed
  have n: "nid c = - 1" if "respmux c = None" using that by (simp add: nid_def)
  show "closed (snd (createResponseMux c)) = closed c" "options (snd (createResponseMux c)) = options c"
    "nid (snd (createResponseMux c)) = nid c"
    "ssid c \<le> ssid (snd (createResponseMux c)) \<or> closed c"
    using rk kk n
    by (cases "respmux c"; cases r; simp add: createResponseMux_def Let_def nid_def)+
  show "respmux (snd (createResponseMux c)) = None \<Longrightarrow> \<exists>e. fst (createResponseMux c) = Throw e"
    using rk by (cases "respmux c"; cases r; simp add: createResponseMux_def Let_def)
qed

section \<open>The two id sequences\<close>

text \<open>How a call other than close moves the two counters.\<close>

definition adv :: "client \<Rightarrow> client \<Rightarrow> bool" where
  "adv c c' = (closed c' = closed c \<and> options c' = options c \<and> nid c' \<le> nid c
               \<and> (closed c \<or> ssid c \<le> ssid c'))"

lemma adv_refl [simp]: "adv c c"
  by (simp add: adv_def)

lemma adv_trans: "adv a b \<Longrightarrow> adv b c \<Longrightarrow> adv a c"
  by (auto simp: adv_def)

lemma core1_adv: "core1 c' = core1 c \<Longrightarrow> adv c c'"
  by (simp add: adv_def core1_def)

lemma core_adv: "core c' = core c \<Longrightarrow> adv c c'"
  by (simp add: adv_def core_def nid_def)

lemma initMux_facts:
  "adv c (snd (initMuxRequestDetails cb ex c))"
  "fst (initMuxRequestDetails cb ex c) = Ret conf \<Longrightarrow>
     rq_id conf = nid c \<and> nid (snd (initMuxRequestDetails cb ex c)) = nid c - 1"
proof -
  obtain r k where rk: "createResponseMux c = (r, k)" by (cases "createResponseMux c") auto
  note f = createResponseMux_core1 [of c, unfolded rk snd_conv fst_conv]
  have ak: "adv c k" using f by (auto simp: adv_def)
  let ?k2 = "k\<lparr>nuid_n := nuid_n k + 1\<rparr>"
  have k2: "adv c ?k2" "nid ?k2 = nid c" using ak f by (auto simp: adv_def nid_def)
  show "adv c (snd (initMuxRequestDetails cb ex c))"
  proof (cases r)
    case (Throw e)
    then show ?thesis using rk ak by (simp add: initMuxRequestDetails_def)
  next
    case (Ret g)
    show ?thesis
    proof (cases "respmux k")
      case None
      then show ?thesis using rk Ret k2 by (simp add: initMuxRequestDetails_def Let_def)
    next
      case (Some m)
      have "adv c (?k2\<lparr>respmux := Some (m\<lparr>nextID := nextID m - 1, requestMap := rm\<rparr>)\<rparr>)" for rm
        using k2 Some by (auto simp: adv_def nid_def)
      then show ?thesis using rk Ret Some by (simp add: initMuxRequestDetails_def Let_def)
    qed
  qed
  show "fst (initMuxRequestDetails cb ex c) = Ret conf \<Longrightarrow>
     rq_id conf = nid c \<and> nid (snd (initMuxRequestDetails cb ex c)) = nid c - 1"
  proof (cases r)
    case (Throw e)
    then show "fst (initMuxRequestDetails cb ex c) = Ret conf \<Longrightarrow> ?thesis"
      using rk by (simp add: initMuxRequestDetails_def)
  next
    case (Ret g)
    show "fst (initMuxRequestDetails cb ex c) = Ret conf \<Longrightarrow> ?thesis"
    proof (cases "respmux k")
      case None
      then show "fst (initMuxRequestDetails cb ex c) = Ret conf \<Longrightarrow> ?thesis"
        using rk Ret by (simp add: initMuxRequestDetails_def Let_def)
    next
      case (Some m)
      have n: "nid c = nextID m" using k2 Some by (simp add: nid_def)
      show "fst (initMuxRequestDetails cb ex c) = Ret conf \<Longrightarrow> ?thesis"
        using rk Ret Some n
        by (cases ex) (auto simp: initMuxRequestDetails_def Let_def nid_def)
    qed
  qed
qed

lemma publish_adv: "publish a b r cb c = (x, c') \<Longrightarrow> core c' = core c"
  using publish_core [of a b r cb c] by simp

lemma oldRequest_adv: "adv c (snd (oldRequest sbj m opts cb c))"
proof -
  let ?c1 = "c\<lparr>nuid_n := nuid_n c + 1\<rparr>"
  have c1: "adv c ?c1" "closed ?c1 = closed c" by (simp_all add: adv_def nid_def)
  have s: "adv c (snd (subscribe i oo cc ?c1))" for i oo cc
  proof (cases "closed c")
    case True
    then show ?thesis using subscribe_closed [of ?c1] c1 by simp
  next
    case False
    then show ?thesis
      using subscribe_open(1) [of ?c1 i oo cc] by (auto simp: adv_def core1_def nid_def)
  qed
  have p: "adv c (snd (publish a b r k c2))" if "adv c c2" for a b r k c2
    using that core_adv [OF publish_core [of a b r k c2]] adv_trans by blast
  have q: "adv c (snd (case subscribe i oo cc ?c1 of
           (Throw e, c2) \<Rightarrow> (Throw e, c2)
         | (Ret s, c2) \<Rightarrow>
             (case publish a b r Undefined c2 of
                (Throw e, c3) \<Rightarrow> (Throw e, c3)
              | (Ret _, c3) \<Rightarrow> (Ret s, c3))))" for i oo cc a b r
  proof -
    obtain x c2 where x: "subscribe i oo cc ?c1 = (x, c2)" by (cases "subscribe i oo cc ?c1") auto
    have a2: "adv c c2" using s [of i oo cc] x by simp
    obtain y c3 where y: "publish a b r Undefined c2 = (y, c3)" by (cases "publish a b r Undefined c2") auto
    have a3: "adv c c3" using p [OF a2, of a b r Undefined] y by simp
    show ?thesis using x y a2 a3 by (cases x; cases y) simp_all
  qed
  obtain cb1 msg1 o1 where a: "(case m of JFun f \<Rightarrow> (Fn f, JStr EMPTY, ONone)
             | _ \<Rightarrow> (cb, m, opts)) = (cb1, msg1, o1)"
    by (cases "(case m of JFun f \<Rightarrow> (Fn f, JStr EMPTY, ONone) | _ \<Rightarrow> (cb, m, opts))") auto
  obtain cbk and ok :: "subcb apiopts" where b: "(case o1 of OFn f \<Rightarrow> (Fn f, ONone)
             | OObj q m t \<Rightarrow> (cb1, OObj q m t)
             | ONone \<Rightarrow> (cb1, ONone)) = (cbk, ok)"
    by (cases "(case o1 of OFn f \<Rightarrow> (Fn f, ONone)
             | OObj q m t \<Rightarrow> (cb1, OObj q m t)
             | ONone \<Rightarrow> (cb1, ONone)) :: cbval \<times> subcb apiopts") auto
  show ?thesis
    by (simp only: oldRequest_def Let_def a prod.case b q)
qed

lemma request_mux_facts:
  assumes "\<not> useOldRequestStyle (options c)"
  shows "adv c (snd (request sbj m opts cb c))"
    and "fst (request sbj m opts cb c) = Ret n \<Longrightarrow>
           n = nid c \<and> nid (snd (request sbj m opts cb c)) = nid c - 1"
proof -
  obtain cb1 msg1 and o1 :: "nat apiopts" where a: "(case m of JFun f \<Rightarrow> (Fn f, JStr EMPTY, ONone)
             | _ \<Rightarrow> (cb, m, opts)) = (cb1, msg1, o1)"
    by (cases "(case m of JFun f \<Rightarrow> (Fn f, JStr EMPTY, ONone) | _ \<Rightarrow> (cb, m, opts))") auto
  obtain cbk and ok :: "nat apiopts" where b: "(case o1 of OFn f \<Rightarrow> (Fn f, ONone)
             | _ \<Rightarrow> (cb1, o1)) = (cbk, ok)"
    by (cases "(case o1 of OFn f \<Rightarrow> (Fn f, ONone) | _ \<Rightarrow> (cb1, o1))") auto
  let ?mx = "(case ok of OObj q m t \<Rightarrow> m | _ \<Rightarrow> None)"
  let ?tmo = "(case ok of OObj q m t \<Rightarrow> t | _ \<Rightarrow> None)"
  obtain r1 c1 where i: "initMuxRequestDetails cbk ?mx c = (r1, c1)"
    by (cases "initMuxRequestDetails cbk ?mx c") auto
  note f = initMux_facts [where c = c and cb = cbk and ex = ?mx, unfolded i snd_conv fst_conv]
  have e: "request sbj m opts cb c =
     (case (r1, c1) of
             (Throw e, c1) \<Rightarrow> (Throw e, c1)
           | (Ret conf, c1) \<Rightarrow>
               (case publish sbj msg1 (JStr (rq_inbox conf)) Undefined c1 of
                  (Throw e, c2) \<Rightarrow> (Throw e, c2)
                | (Ret _, c2) \<Rightarrow>
                    if ?tmo \<noteq> None \<and> ?tmo \<noteq> Some 0 then
                      (let (h, c3) = setTimeout (ReqTimer (rq_token conf) (rq_callback conf) (rq_id conf)) c2
                       in (Ret (rq_id conf),
                           c3\<lparr>respmux := map_option
                                 (\<lambda>m. m\<lparr>requestMap := obj_upd (requestMap m) (rq_token conf)
                                                          (\<lambda>v. v\<lparr>rq_timeout := Some h\<rparr>)\<rparr>)
                                 (respmux c3)\<rparr>))
                    else (Ret (rq_id conf), c2)))"
    using assms by (simp only: request_def Let_def a prod.case b i if_False)
  have t: "adv c2 (c3\<lparr>respmux := map_option (\<lambda>m. m\<lparr>requestMap := g m\<rparr>) (respmux c3)\<rparr>)
           \<and> nid (c3\<lparr>respmux := map_option (\<lambda>m. m\<lparr>requestMap := g m\<rparr>) (respmux c3)\<rparr>) = nid c2"
    if "setTimeout tm c2 = (h, c3)" for tm c2 h c3 g
    using that by (cases "respmux c2") (auto simp: setTimeout_def adv_def nid_def)
  show "adv c (snd (request sbj m opts cb c))"
  proof (cases r1)
    case (Throw x)
    then show ?thesis using e f by simp
  next
    case (Ret conf)
    obtain r2 c2 where p: "publish sbj msg1 (JStr (rq_inbox conf)) Undefined c1 = (r2, c2)"
      by (cases "publish sbj msg1 (JStr (rq_inbox conf)) Undefined c1") auto
    have c2: "adv c c2" using adv_trans [OF f(1) core_adv [OF publish_adv [OF p]]] .
    obtain h c3 where st: "setTimeout (ReqTimer (rq_token conf) (rq_callback conf) (rq_id conf)) c2 = (h, c3)"
      by (cases "setTimeout (ReqTimer (rq_token conf) (rq_callback conf) (rq_id conf)) c2") auto
    show ?thesis using e Ret p c2 st adv_trans [OF c2 t [OF st, THEN conjunct1]]
      by (cases r2) (simp_all add: Let_def)
  qed
  show "fst (request sbj m opts cb c) = Ret n \<Longrightarrow>
           n = nid c \<and> nid (snd (request sbj m opts cb c)) = nid c - 1"
  proof (cases r1)
    case (Throw x)
    then show "fst (request sbj m opts cb c) = Ret n \<Longrightarrow> ?thesis" using e by simp
  next
    case (Ret conf)
    obtain r2 c2 where p: "publish sbj msg1 (JStr (rq_inbox conf)) Undefined c1 = (r2, c2)"
      by (cases "publish sbj msg1 (JStr (rq_inbox conf)) Undefined c1") auto
    have c2: "nid c2 = nid c1" using core_eqD(10) [OF publish_adv [OF p]] .
    have c1: "rq_id conf = nid c \<and> nid c1 = nid c - 1" using f(2) Ret by simp
    obtain h c3 where st: "setTimeout (ReqTimer (rq_token conf) (rq_callback conf) (rq_id conf)) c2 = (h, c3)"
      by (cases "setTimeout (ReqTimer (rq_token conf) (rq_callback conf) (rq_id conf)) c2") auto
    show "fst (request sbj m opts cb c) = Ret n \<Longrightarrow> ?thesis"
      using e Ret p c1 c2 st t [OF st, THEN conjunct2]
      by (cases r2) (auto simp: Let_def split: if_splits)
  qed
qed

lemma request_adv: "adv c (snd (request sbj m opts cb c))"
proof (cases "useOldRequestStyle (options c)")
  case True
  then show ?thesis using oldRequest_adv [of c sbj m opts cb] by (simp add: request_def)
next
  case False
  then show ?thesis by (rule request_mux_facts(1))
qed

lemma processMsg_deliver_core1: "core1 (processMsg_deliver sb pl c) = core1 c"
proof -
  have m: "core1 (snd (mux_dispatch a b s c)) = core1 c" for a b s
  proof (cases "respmux c")
    case None
    then show ?thesis by (simp add: mux_dispatch_def)
  next
    case (Some mm)
    have u: "core1 (k\<lparr>respmux := Some (mm\<lparr>requestMap := rm\<rparr>)\<rparr>) = core1 c"
      if "core1 k = core1 c" for k rm
      using that Some by (simp add: core1_def nid_def)
    have v: "core1 (snd (case cancelMuxRequest t k of
                                (Throw x, c3) \<Rightarrow> (Throw x, c3)
                              | (Ret _, c3) \<Rightarrow> (Ret (), emit ev c3))) = core1 k" for t k ev
    proof -
      obtain r k' where rk: "cancelMuxRequest t k = (r, k')" by (cases "cancelMuxRequest t k") auto
      show ?thesis using cancelMuxRequest_core1 [of t k] rk by (cases r) simp_all
    qed
    show ?thesis
      using Some
      by (simp add: mux_dispatch_def Let_def u v split: option.split cbval.split)
  qed
  have i: "core1 (invoke_sub f a b s n c) = core1 c" for f a b s n
  proof (cases f)
    case (SubUser u)
    then show ?thesis by (cases u) (simp_all add: invoke_sub_def)
  next
    case SubMux
    obtain r k where rk: "mux_dispatch a b s c = (r, k)" by (cases "mux_dispatch a b s c") auto
    show ?thesis using SubMux m [of a b s] rk by (cases r) (simp_all add: invoke_sub_def)
  next
    case (SubOldReq u)
    then show ?thesis by (cases u) (simp_all add: invoke_sub_def)
  qed
  show ?thesis by (simp add: processMsg_deliver_def i)
qed

lemma processMsg_core1: "core1 (snd (processMsg c)) = core1 c"
proof -
  have d: "core1 (processMsg_deliver sb pl k) = core1 k" for sb pl k
    by (rule processMsg_deliver_core1)
  have u: "core1 (snd (case unsubscribe s None k of
                  (Throw e, c3) \<Rightarrow> (Throw e, c3)
                | (Ret _, c3) \<Rightarrow> (Ret (), upd_sub n f c3))) = core1 k" for s k n f
  proof -
    obtain r k' where rk: "unsubscribe s None k = (r, k')" by (cases "unsubscribe s None k") auto
    show ?thesis using unsubscribe_core1 [of s None k] rk by (cases r) simp_all
  qed
  have t: "core1 (snd (processMsg_timer n sb k)) = core1 k" for n sb k
    by (simp add: processMsg_timer_def split: option.split)
  have s: "core1 (snd (processMsg_sub n sb pl k)) = core1 k" for n sb pl k
    using t [of n sb k]
    by (cases "processMsg_timer n sb k")
       (simp add: processMsg_sub_def Let_def d u split: option.split)
  show ?thesis
    by (simp add: processMsg_def s split: option.split)
qed

lemma core1_updates [simp]:
  "core1 (pstate_update f1 c) = core1 c" "core1 (payload_update f2 c) = core1 c"
  by (simp_all add: core1_def nid_def)

lemma finish_msg_core1: "core1 (snd (finish_msg c)) = core1 c"
proof -
  obtain r k where rk: "processMsg c = (r, k)" by (cases "processMsg c") auto
  show ?thesis using processMsg_core1 [of c] rk by (cases r) (simp_all add: finish_msg_def)
qed

lemma fire_timer_core1: "core1 (snd (fire_timer h c)) = core1 c"
proof (cases "map_of (timers c) h")
  case None
  then show ?thesis by (simp add: fire_timer_def)
next
  case (Some tm)
  obtain tk cb rid where tm: "tm = ReqTimer tk cb rid" by (cases tm) auto
  have v: "core1 (snd (case cancelMuxRequest t k of
                           (Throw e, c3) \<Rightarrow> (Throw e, c3)
                         | (Ret _, c3) \<Rightarrow> (Ret (), c3))) = core1 k" for t k
  proof -
    obtain r k' where rk: "cancelMuxRequest t k = (r, k')" by (cases "cancelMuxRequest t k") auto
    show ?thesis using cancelMuxRequest_core1 [of t k] rk by (cases r) simp_all
  qed
  show ?thesis using Some tm by (cases cb) (simp_all add: fire_timer_def Let_def v)
qed

lemma ret_unit_snd: "snd (ret_unit rc) = snd rc"
  by (cases rc; cases "fst rc") (auto simp: ret_unit_def)

lemma ret_unit_fst: "fst (ret_unit rc) \<noteq> RSid n" "fst (ret_unit rc) \<noteq> RReq n"
  by (cases rc; cases "fst rc"; auto simp: ret_unit_def)+

lemma requestOne_adv: "adv c (snd (requestOne s m opts t cb c))"
  by (cases opts) (simp_all add: requestOne_def request_adv)

lemma exec_step:
  assumes "exec a c = (r, c')"
  shows "options c' = options c"
    and "closed c \<Longrightarrow> closed c'"
    and "\<not> closed c' \<Longrightarrow> ssid c \<le> ssid c'"
    and "nid c' \<le> nid c"
    and "r = RSid n \<Longrightarrow> \<not> closed c \<and> n = ssid c + 1 \<and> ssid c' = n"
    and "r = RReq n \<Longrightarrow> \<not> useOldRequestStyle (options c) \<Longrightarrow> n = nid c \<and> nid c' = nid c - 1"
proof -
  have A: "(a = Close \<and> c' = close c \<and> r = RUnit) \<or> adv c c'"
  proof (cases a)
    case (Subscribe sbj opts cb)
    let ?s = "subscribe sbj (map_apiopts SubUser opts) (SubUser cb) c"
    have "adv c (snd ?s)"
    proof (cases "closed c")
      case True
      then show ?thesis using subscribe_closed [of c] by simp
    next
      case False
      then show ?thesis using subscribe_open(1) [of c sbj "map_apiopts SubUser opts" "SubUser cb"]
        by (auto simp: adv_def core1_def nid_def)
    qed
    then show ?thesis using assms Subscribe by (cases ?s; cases "fst ?s") auto
  next
    case (Unsubscribe sid mx)
    then show ?thesis using assms core1_adv [OF unsubscribe_core1 [of sid mx c]]
      by (auto simp: ret_unit_snd dest!: arg_cong [where f = snd])
  next
    case (Publish s m rp cb)
    then show ?thesis using assms core_adv [OF publish_core [of s m rp cb c]]
      by (auto simp: ret_unit_snd dest!: arg_cong [where f = snd])
  next
    case (Flush cb)
    then show ?thesis using assms core_adv [OF flush_core [of cb c]]
      by (auto simp: ret_unit_snd dest!: arg_cong [where f = snd])
  next
    case (Request s m opts cb)
    then show ?thesis using assms request_adv [of c s m opts cb]
      by (cases "request s m opts cb c"; cases "fst (request s m opts cb c)") auto
  next
    case (RequestOne s m opts t cb)
    then show ?thesis using assms requestOne_adv [of c s m opts t cb]
      by (cases "requestOne s m opts t cb c"; cases "fst (requestOne s m opts t cb c)") auto
  next
    case Close
    then show ?thesis using assms by simp
  next
    case (Deliver sbj sid rep m)
    then show ?thesis using assms
        core1_adv [OF finish_msg_core1 [of "c\<lparr>payload := Some (msg_payload sbj sid rep m)\<rparr>"]]
      by (cases "closed c") (auto simp: ret_unit_snd adv_def nid_def dest!: arg_cong [where f = snd])
  next
    case (Fire h)
    then show ?thesis using assms core1_adv [OF fire_timer_core1 [of h c]]
      by (auto simp: ret_unit_snd dest!: arg_cong [where f = snd])
  qed
  have cl: "closed (close c)" "options (close c) = options c" "nid (close c) = nid c"
    by (simp_all add: close_fields nid_def)
  show "options c' = options c" "closed c \<Longrightarrow> closed c'" "\<not> closed c' \<Longrightarrow> ssid c \<le> ssid c'"
    "nid c' \<le> nid c"
    using A cl by (auto simp: adv_def)
  show "r = RSid n \<Longrightarrow> \<not> closed c \<and> n = ssid c + 1 \<and> ssid c' = n"
  proof -
    assume r: "r = RSid n"
    then obtain sbj opts cb where a: "a = Subscribe sbj opts cb"
      using assms by (cases a) (auto simp: dest: arg_cong [where f = fst] simp: ret_unit_fst split: prod.splits ret.splits if_splits)
    let ?s = "subscribe sbj (map_apiopts SubUser opts) (SubUser cb) c"
    have s: "?s = (Ret n, c')" using assms a r by (auto split: prod.splits ret.splits)
    have nc: "\<not> closed c" using s subscribe_closed [of c] by auto
    show ?thesis
      using subscribe_open [OF nc, of sbj "map_apiopts SubUser opts" "SubUser cb"] s nc
      by (auto simp: core1_def)
  qed
  show "r = RReq n \<Longrightarrow> \<not> useOldRequestStyle (options c) \<Longrightarrow> n = nid c \<and> nid c' = nid c - 1"
  proof -
    assume r: "r = RReq n" and o: "\<not> useOldRequestStyle (options c)"
    have "\<exists>s m opts cb. request s m opts cb c = (Ret n, c')"
      using assms r
      by (cases a) (auto simp: requestOne_def Let_def dest: arg_cong [where f = fst] simp: ret_unit_fst split: prod.splits ret.splits if_splits apiopts.splits)
    then obtain s m opts cb where q: "request s m opts cb c = (Ret n, c')" by blast
    show ?thesis using request_mux_facts(2) [OF o, of s m opts cb n] q by simp
  qed
qed

lemma sids_of_Cons:
  "sids_of (r # rs) = (case r of RSid n \<Rightarrow> [n] | _ \<Rightarrow> []) @ sids_of rs"
  "reqids_of (r # rs) = (case r of RReq n \<Rightarrow> [n] | _ \<Rightarrow> []) @ reqids_of rs"
  "sids_of [] = []" "reqids_of [] = []"
  by (simp_all add: sids_of_def reqids_of_def)

lemma run_sids:
  "run c as = (rs, c') \<Longrightarrow>
     (\<forall>n \<in> set (sids_of rs). \<not> closed c \<and> ssid c < n) \<and> sorted_wrt (<) (sids_of rs)"
proof (induction as arbitrary: c rs c')
  case Nil
  then show ?case by (simp add: sids_of_Cons)
next
  case (Cons a as)
  obtain r c1 where e: "exec a c = (r, c1)" by (cases "exec a c") auto
  obtain rs1 c2 where r1: "run c1 as = (rs1, c2)" by (cases "run c1 as") auto
  have rs: "rs = r # rs1" using Cons.prems e r1 by simp
  note ih = Cons.IH [OF r1]
  note st = exec_step [OF e]
  have later: "\<forall>n \<in> set (sids_of rs1). \<not> closed c \<and> ssid c < n \<and> ssid c1 < n"
    using ih st(2) st(3) by fastforce
  show ?case
  proof (cases r)
    case (RSid n)
    have "\<not> closed c \<and> n = ssid c + 1 \<and> ssid c1 = n" using st(5) [of n] RSid by simp
    then show ?thesis using rs RSid ih later by (auto simp: sids_of_Cons)
  qed (use rs ih later in \<open>auto simp: sids_of_Cons\<close>)
qed

lemma run_reqids:
  "run c as = (rs, c') \<Longrightarrow> \<not> useOldRequestStyle (options c) \<Longrightarrow>
     (\<forall>n \<in> set (reqids_of rs). n \<le> nid c) \<and> sorted_wrt (>) (reqids_of rs)"
proof (induction as arbitrary: c rs c')
  case Nil
  then show ?case by (simp add: sids_of_Cons)
next
  case (Cons a as)
  obtain r c1 where e: "exec a c = (r, c1)" by (cases "exec a c") auto
  obtain rs1 c2 where r1: "run c1 as = (rs1, c2)" by (cases "run c1 as") auto
  have rs: "rs = r # rs1" using Cons.prems e r1 by simp
  note st = exec_step [OF e]
  have o: "\<not> useOldRequestStyle (options c1)" using st(1) Cons.prems(2) by simp
  note ih = Cons.IH [OF r1 o]
  have later: "\<forall>n \<in> set (reqids_of rs1). n \<le> nid c \<and> n \<le> nid c1"
    using ih st(4) by fastforce
  show ?case
  proof (cases r)
    case (RReq n)
    have "n = nid c \<and> nid c1 = nid c - 1" using st(6) [of n] RReq Cons.prems(2) by simp
    then show ?thesis using rs RReq ih later by (auto simp: sids_of_Cons)
  qed (use rs ih later in \<open>auto simp: sids_of_Cons\<close>)
qed

lemma new_client_ids:
  "closed (new_client os srvs) = False" "ssid (new_client os srvs) = 1"
  "nid (new_client os srvs) = - 1" "options (new_client os srvs) = os"
  "subs (new_client os srvs) = Some []"
  by (cases srvs; simp add: new_client_def createConnection_def initState_def blank_def
        selectServer_def Let_def nid_def split: prod.split)+

section \<open>The sids subscribe assigns\<close>

text \<open>
  subscribe emits \<open>subscribe\<close> with the sid it has just assigned, and nothing else emits
  that event: the sids assigned so far, in order, can be read off the log.  They include
  the sid of the wildcard subscription of the request multiplexer and the sids of the
  subscriptions behind old-style requests.
\<close>

definition asg_of :: "effect \<Rightarrow> int list" where
  "asg_of e = (case e of Emit (EvSubscribe n s) \<Rightarrow> [n] | _ \<Rightarrow> [])"

definition asg :: "client \<Rightarrow> int list" where
  "asg c = concat (map asg_of (log c))"

text \<open>The sid of the wildcard subscription, once the multiplexer exists.\<close>

definition muxsid :: "client \<Rightarrow> int option" where
  "muxsid c = map_option subscriptionID (respmux c)"

definition core2 :: "client \<Rightarrow> int list \<times> bool \<times> int option" where
  "core2 c = (asg c, subs c = None, muxsid c)"

lemma asg_of_simps [simp]:
  "asg_of (CallErr k e) = []" "asg_of (CallSub k m r s i) = []" "asg_of (CallOldReq k m r) = []"
  "asg_of (CallPong k) = []" "asg_of (CallReq t k m r) = []" "asg_of (CallReqErr t k a b) = []"
  "asg_of (Emit (EvUnsubscribe i s)) = []" "asg_of (Emit (EvError e x)) = []"
  "asg_of (Emit (EvSubscribe n s)) = [n]"
  by (simp_all add: asg_of_def)

lemma asg_call [simp]:
  "asg (call e c) = asg c @ asg_of e" "asg (emit ev c) = asg c @ asg_of (Emit ev)"
  by (simp_all add: asg_def call_def emit_def)

lemma core2_simps [simp]:
  "asg_of e = [] \<Longrightarrow> core2 (call e c) = core2 c"
  "asg_of (Emit ev) = [] \<Longrightarrow> core2 (emit ev c) = core2 c"
  "core2 (clearTimeout h c) = core2 c"
  "core2 (upd_sub n f c) = core2 c" "core2 (del_sub n c) = core2 c"
  "core2 (sendCommand cmd c) = core2 c" "core2 (flushPending c) = core2 c"
  "core2 (pstate_update g1 c) = core2 c" "core2 (payload_update g2 c) = core2 c"
  "core2 (pongs_update g3 c) = core2 c" "core2 (timers_update g4 c) = core2 c"
  "core2 (next_timer_update g5 c) = core2 c" "core2 (nuid_n_update g6 c) = core2 c"
  "core2 (ssid_update g7 c) = core2 c"
  by (simp_all add: core2_def asg_def muxsid_def call_def emit_def clearTimeout_def upd_sub_def
        del_sub_def)

lemma core2_requestMap [simp]:
  "respmux c = Some m \<Longrightarrow>
     core2 (c\<lparr>respmux := Some (m\<lparr>requestMap := rm\<rparr>)\<rparr>) = core2 c"
  "respmux c = Some m \<Longrightarrow>
     core2 (c\<lparr>respmux := Some (m\<lparr>nextID := i, requestMap := rm\<rparr>)\<rparr>) = core2 c"
  by (simp_all add: core2_def asg_def muxsid_def)

lemma core2_flush: "core2 (snd (flush cb c)) = core2 c"
  by (cases cb; cases "pongs c") (simp_all add: flush_def)

lemma core2_publish_send: "core2 (snd (publish_send a b r cb c)) = core2 c"
  by (cases "pub_command (options c) a b r") (simp_all add: publish_send_def Let_def core2_flush)

lemma core2_publish_reply: "core2 (snd (publish_reply a b r cb c)) = core2 c"
  by (cases r; cases cb) (simp_all add: publish_reply_def core2_publish_send)

lemma core2_publish: "core2 (snd (publish a b r cb c)) = core2 c"
proof -
  obtain s o_cb where so: "(case a of JFun f \<Rightarrow> (JUndef, Fn f) | _ \<Rightarrow> (a, cb)) = (s, o_cb)"
    by (cases "(case a of JFun f \<Rightarrow> (JUndef, Fn f) | _ \<Rightarrow> (a, cb))") auto
  let ?m = "pub_msg (options c) b"
  let ?g = "if \<not> truthy s then (case o_cb of Fn k \<Rightarrow> (Ret (), call (CallErr k BAD_SUBJECT) c)
                                 | _ \<Rightarrow> (Throw BAD_SUBJECT, c)) else (Ret (), c)"
  have g: "core2 (snd ?g) = core2 c" by (cases o_cb) simp_all
  obtain r1 c1 where rc1: "?g = (r1, c1)" by (cases ?g) auto
  have c1: "core2 c1 = core2 c" using g rc1 by simp
  have "core2 (snd (publish a b r cb c)) = core2 c1"
    unfolding publish_def so Let_def prod.case rc1
    by (cases r1; cases ?m; cases o_cb) (simp_all add: core2_publish_reply)
  then show ?thesis using c1 by simp
qed

lemma core2_cancelMuxRequest: "core2 (snd (cancelMuxRequest t c)) = core2 c"
proof (cases "respmux c")
  case None
  then show ?thesis by (simp add: cancelMuxRequest_def)
next
  case (Some m)
  show ?thesis
  proof (cases "getMuxRequestConfig t m")
    case None
    then show ?thesis using Some by (simp add: cancelMuxRequest_def)
  next
    case (Some conf)
    have "core2 (c1\<lparr>respmux := Some (m\<lparr>requestMap := rm\<rparr>)\<rparr>) = core2 c"
      if "core2 c1 = core2 c" for c1 rm
      using that \<open>respmux c = Some m\<close> by (simp add: core2_def asg_def muxsid_def)
    then show ?thesis using Some \<open>respmux c = Some m\<close>
      by (cases "rq_timeout conf") (simp_all add: cancelMuxRequest_def Let_def)
  qed
qed

lemma core2_unsubscribe: "core2 (snd (unsubscribe sid opt_max c)) = core2 c"
proof (cases sid)
  case None
  then show ?thesis by (simp add: unsubscribe_def)
next
  case (Some n)
  consider (z) "n = 0 \<or> closed c" | (neg) "\<not> (n = 0 \<or> closed c)" "n < 0"
    | (pos) "\<not> (n = 0 \<or> closed c)" "\<not> n < 0" by blast
  then show ?thesis
  proof cases
    case z
    then show ?thesis using Some by (auto simp: unsubscribe_def)
  next
    case neg
    obtain r c' where rc: "cancelMuxRequest (TNum n) c = (r, c')" by (cases "cancelMuxRequest (TNum n) c") auto
    have "core2 c' = core2 c" using core2_cancelMuxRequest [of "TNum n" c] rc by simp
    then show ?thesis using Some neg rc by (cases r) (simp_all add: unsubscribe_def)
  next
    case pos
    have t: "core2 (snd (unsubscribe_tail n opt_max c1)) = core2 c1" for c1
      by (simp add: unsubscribe_tail_def Let_def split: option.split)
    show ?thesis using Some pos by (simp add: unsubscribe_def Let_def t)
  qed
qed

lemma core2_subscribe_max: "core2 (snd (subscribe_max mx c)) = core2 c"
proof -
  obtain r k where rk: "unsubscribe (Some (ssid c)) mx c = (r, k)"
    by (cases "unsubscribe (Some (ssid c)) mx c") auto
  have k: "core2 k = core2 c" using core2_unsubscribe [of "Some (ssid c)" mx c] rk by simp
  show ?thesis using rk k by (cases r) (simp_all add: subscribe_max_def)
qed

text \<open>subscribe on a client that is not closed assigns the next sid.\<close>

lemma core2_subscribe:
  assumes "\<not> closed c" "subs c \<noteq> None"
  shows "core2 (snd (subscribe sbj opts cb c)) = (asg c @ [ssid c + 1], False, muxsid c)"
proof -
  obtain cb' qg mx where o: "(case opts of OFn f \<Rightarrow> (f, None, None) | OObj q m t \<Rightarrow> (cb, q, m)
                             | ONone \<Rightarrow> (cb, None, None)) = (cb', qg, mx)"
    by (cases "(case opts of OFn f \<Rightarrow> (f, None, None) | OObj q m t \<Rightarrow> (cb, q, m)
                             | ONone \<Rightarrow> (cb, None, None))") auto
  obtain ss where ss: "subs c = Some ss" using assms(2) by auto
  have k: "core2 (emit (EvSubscribe (ssid c + 1) sbj) (sendCommand cmd (c\<lparr>ssid := ssid c + 1, subs := Some x\<rparr>)))
             = (asg c @ [ssid c + 1], False, muxsid c)" for cmd x
    by (simp add: core2_def muxsid_def emit_def asg_def)
  show ?thesis
    using assms(1) o ss
    by (cases qg) (simp_all add: subscribe_def Let_def core2_subscribe_max k)
qed

lemma core2_subscribe_none:
  assumes "\<not> closed c" "subs c = None"
  shows "core2 (snd (subscribe sbj opts cb c)) = core2 c" "\<exists>e. fst (subscribe sbj opts cb c) = Throw e"
  using assms by (simp_all add: subscribe_def Let_def split: prod.split)

text \<open>
  One call: either it assigns no sid, or the client is open and the call assigns the next
  one, \<open>ssid + 1\<close> (which may become the sid of the wildcard subscription).
\<close>

definition sstep :: "client \<Rightarrow> client \<Rightarrow> bool" where
  "sstep c c' =
     (closed c' = closed c \<and>
      (core2 c' = core2 c \<and> (ssid c' = ssid c \<or> subs c = None)
       \<or> \<not> closed c \<and> subs c \<noteq> None \<and> asg c' = asg c @ [ssid c + 1] \<and> subs c' \<noteq> None
          \<and> ssid c' = ssid c + 1 \<and> (muxsid c' = muxsid c \<or> muxsid c' = Some (ssid c + 1))))"

lemma sstep_same:
  "core2 c' = core2 c \<Longrightarrow> ssid c' = ssid c \<Longrightarrow> closed c' = closed c \<Longrightarrow> sstep c c'"
  by (simp add: sstep_def)

lemma sstep_core1: "core2 c' = core2 c \<Longrightarrow> core1 c' = core1 c \<Longrightarrow> sstep c c'"
  by (simp add: sstep_def core1_def)

lemma sstep_then:
  assumes "sstep c k" "core2 c' = core2 k" "ssid c' = ssid k" "closed c' = closed k"
  shows "sstep c c'"
  using assms unfolding sstep_def core2_def by auto

lemma sstep_after:
  assumes "core2 k = core2 c" "ssid k = ssid c" "closed k = closed c" "sstep k c'"
  shows "sstep c c'"
  using assms unfolding sstep_def core2_def by auto

lemma sstep_refl [simp]: "sstep c c"
  by (simp add: sstep_def)

lemma sstep_subscribe:
  "sstep c (snd (subscribe sbj opts cb c))"
  "fst (subscribe sbj opts cb c) = Ret n \<Longrightarrow>
     \<not> closed c \<and> subs c \<noteq> None \<and> n = ssid c + 1
     \<and> asg (snd (subscribe sbj opts cb c)) = asg c @ [n]"
proof -
  let ?s = "subscribe sbj opts cb c"
  have a: "sstep c (snd ?s) \<and> (fst ?s = Ret n \<longrightarrow>
     \<not> closed c \<and> subs c \<noteq> None \<and> n = ssid c + 1 \<and> asg (snd ?s) = asg c @ [n])"
  proof (cases "closed c")
    case True
    then show ?thesis by (simp add: subscribe_closed)
  next
    case False
    note o = subscribe_open [OF False, of sbj opts cb]
    have cl: "closed (snd ?s) = closed c" "ssid (snd ?s) = ssid c + 1"
      using o(1) by (simp_all add: core1_def)
    show ?thesis
    proof (cases "subs c")
      case None
      note n = core2_subscribe_none [OF False None, of sbj opts cb]
      show ?thesis using n cl None by (auto simp: sstep_def)
    next
      case (Some ss)
      have "core2 (snd ?s) = (asg c @ [ssid c + 1], False, muxsid c)"
        using core2_subscribe [OF False, of sbj opts cb] Some by simp
      then show ?thesis using cl False Some o(2) [of n] by (auto simp: sstep_def core2_def)
    qed
  qed
  show "sstep c (snd ?s)" using a by simp
  show "fst ?s = Ret n \<Longrightarrow>
     \<not> closed c \<and> subs c \<noteq> None \<and> n = ssid c + 1 \<and> asg (snd ?s) = asg c @ [n]"
    using a by simp
qed

lemma sstep_createResponseMux: "sstep c (snd (createResponseMux c))"
proof (cases "respmux c")
  case (Some m)
  then show ?thesis by (simp add: createResponseMux_def)
next
  case None
  let ?c1 = "c\<lparr>nuid_n := nuid_n c + 1\<rparr>"
  let ?g = "(''_INBOX.'' @ nuids (options c) (nuid_n c)) @ ''.*''"
  obtain r k where rk: "subscribe ?g (OFn SubMux) (SubUser Undefined) ?c1 = (r, k)"
    by (cases "subscribe ?g (OFn SubMux) (SubUser Undefined) ?c1") auto
  note s = sstep_subscribe [where c = ?c1 and sbj = ?g and opts = "OFn SubMux" and cb = "SubUser Undefined",
      unfolded rk snd_conv fst_conv]
  have c1: "core2 ?c1 = core2 c" "ssid ?c1 = ssid c" "closed ?c1 = closed c" by simp_all
  have sk: "sstep c k" using sstep_after [OF c1 s(1)] .
  show ?thesis
  proof (cases r)
    case (Throw e)
    then show ?thesis using None rk sk by (simp add: createResponseMux_def Let_def)
  next
    case (Ret sid)
    have f: "\<not> closed c" "subs c \<noteq> None" "sid = ssid c + 1" "asg k = asg c @ [sid]"
      using s(2) [of sid] Ret by (simp_all add: asg_def)
    have k: "closed k = closed c" "subs k \<noteq> None" "ssid k = ssid c + 1"
      using sk f unfolding sstep_def core2_def by auto
    define k' where "k' = k\<lparr>respmux := Some \<lparr>mx_inbox = ''_INBOX.'' @ nuids (options c) (nuid_n c),
           inboxPrefixLen = length (''_INBOX.'' @ nuids (options c) (nuid_n c)) + 1,
           subscriptionID = sid, requestMap = [], nextID = - 1\<rparr>\<rparr>"
    have e: "snd (createResponseMux c) = k'"
      using None rk Ret by (simp add: createResponseMux_def Let_def k'_def)
    have "sstep c k'"
      unfolding sstep_def using f k by (simp add: k'_def asg_def muxsid_def)
    then show ?thesis using e by simp
  qed
qed

lemma sstep_initMux: "sstep c (snd (initMuxRequestDetails cb ex c))"
proof -
  obtain r k where rk: "createResponseMux c = (r, k)" by (cases "createResponseMux c") auto
  have sk: "sstep c k" using sstep_createResponseMux [of c] rk by simp
  let ?k2 = "k\<lparr>nuid_n := nuid_n k + 1\<rparr>"
  have k2: "sstep c ?k2" by (rule sstep_then [OF sk]) simp_all
  show ?thesis
  proof (cases r)
    case (Throw e)
    then show ?thesis using rk sk by (simp add: initMuxRequestDetails_def)
  next
    case (Ret g)
    show ?thesis
    proof (cases "respmux k")
      case None
      then show ?thesis using rk Ret k2 by (simp add: initMuxRequestDetails_def Let_def)
    next
      case (Some m)
      have "sstep c (?k2\<lparr>respmux := Some (m\<lparr>nextID := i, requestMap := rm\<rparr>)\<rparr>)" for i rm
        by (rule sstep_then [OF sk]) (use Some in \<open>simp_all add: core2_def asg_def muxsid_def\<close>)
      then show ?thesis using rk Ret Some by (simp add: initMuxRequestDetails_def Let_def)
    qed
  qed
qed

lemma sstep_publish:
  assumes "sstep c k"
  shows "sstep c (snd (publish a b r cb k))"
  using assms core2_publish [of a b r cb k] core_eqD(1,2) [OF publish_core [of a b r cb k]]
  by (intro sstep_then [OF assms]) simp_all

lemma sstep_oldRequest:
  "sstep c (snd (oldRequest sbj m opts cb c))"
  "fst (oldRequest sbj m opts cb c) = Ret n \<Longrightarrow>
     \<not> closed c \<and> subs c \<noteq> None \<and> n = ssid c + 1
     \<and> asg (snd (oldRequest sbj m opts cb c)) = asg c @ [n]"
proof -
  let ?c1 = "c\<lparr>nuid_n := nuid_n c + 1\<rparr>"
  have c1: "core2 ?c1 = core2 c" "ssid ?c1 = ssid c" "closed ?c1 = closed c" by simp_all
  have q: "sstep c (snd X) \<and> (fst X = Ret n \<longrightarrow>
     \<not> closed c \<and> subs c \<noteq> None \<and> n = ssid c + 1 \<and> asg (snd X) = asg c @ [n])"
    if X: "X = (case subscribe i oo cc ?c1 of
           (Throw e, c2) \<Rightarrow> (Throw e, c2)
         | (Ret s, c2) \<Rightarrow>
             (case publish a b r Undefined c2 of
                (Throw e, c3) \<Rightarrow> (Throw e, c3)
              | (Ret _, c3) \<Rightarrow> (Ret s, c3)))" for X i oo cc a b r
  proof -
    obtain x c2 where x: "subscribe i oo cc ?c1 = (x, c2)" by (cases "subscribe i oo cc ?c1") auto
    note s = sstep_subscribe [where c = ?c1 and sbj = i and opts = oo and cb = cc, unfolded x snd_conv fst_conv]
    have a2: "sstep c c2" using sstep_after [OF c1 s(1)] .
    obtain y c3 where y: "publish a b r Undefined c2 = (y, c3)" by (cases "publish a b r Undefined c2") auto
    have a3: "sstep c c3" using sstep_publish [OF a2, of a b r Undefined] y by simp
    have g3: "asg c3 = asg c2" using core2_publish [of a b r Undefined c2] y by (simp add: core2_def)
    show ?thesis
    proof (cases x)
      case (Throw e)
      then show ?thesis using X x a2 by simp
    next
      case (Ret s')
      have f: "\<not> closed c \<and> subs c \<noteq> None \<and> s' = ssid c + 1 \<and> asg c2 = asg c @ [s']"
        using s(2) [of s'] Ret by (simp add: asg_def)
      show ?thesis using X x Ret y a3 f g3 by (cases y) auto
    qed
  qed
  obtain cb1 msg1 o1 where a: "(case m of JFun f \<Rightarrow> (Fn f, JStr EMPTY, ONone)
             | _ \<Rightarrow> (cb, m, opts)) = (cb1, msg1, o1)"
    by (cases "(case m of JFun f \<Rightarrow> (Fn f, JStr EMPTY, ONone) | _ \<Rightarrow> (cb, m, opts))") auto
  obtain cbk and ok :: "subcb apiopts" where b: "(case o1 of OFn f \<Rightarrow> (Fn f, ONone)
             | OObj q m t \<Rightarrow> (cb1, OObj q m t)
             | ONone \<Rightarrow> (cb1, ONone)) = (cbk, ok)"
    by (cases "(case o1 of OFn f \<Rightarrow> (Fn f, ONone)
             | OObj q m t \<Rightarrow> (cb1, OObj q m t)
             | ONone \<Rightarrow> (cb1, ONone)) :: cbval \<times> subcb apiopts") auto
  have e: "oldRequest sbj m opts cb c = (case subscribe (''_INBOX.'' @ nuids (options c) (nuid_n c)) ok (SubOldReq cbk) ?c1 of
           (Throw e, c2) \<Rightarrow> (Throw e, c2)
         | (Ret s, c2) \<Rightarrow>
             (case publish sbj msg1 (JStr (''_INBOX.'' @ nuids (options c) (nuid_n c))) Undefined c2 of
                (Throw e, c3) \<Rightarrow> (Throw e, c3)
              | (Ret _, c3) \<Rightarrow> (Ret s, c3)))"
    by (simp only: oldRequest_def Let_def a prod.case b)
  note r = q [OF e]
  show "sstep c (snd (oldRequest sbj m opts cb c))" using r by simp
  show "fst (oldRequest sbj m opts cb c) = Ret n \<Longrightarrow>
     \<not> closed c \<and> subs c \<noteq> None \<and> n = ssid c + 1
     \<and> asg (snd (oldRequest sbj m opts cb c)) = asg c @ [n]" using r by simp
qed

lemma sstep_request: "sstep c (snd (request sbj m opts cb c))"
proof (cases "useOldRequestStyle (options c)")
  case True
  then show ?thesis using sstep_oldRequest(1) [of c sbj m opts cb] by (simp add: request_def)
next
  case False
  obtain cb1 msg1 and o1 :: "nat apiopts" where a: "(case m of JFun f \<Rightarrow> (Fn f, JStr EMPTY, ONone)
             | _ \<Rightarrow> (cb, m, opts)) = (cb1, msg1, o1)"
    by (cases "(case m of JFun f \<Rightarrow> (Fn f, JStr EMPTY, ONone) | _ \<Rightarrow> (cb, m, opts))") auto
  obtain cbk and ok :: "nat apiopts" where b: "(case o1 of OFn f \<Rightarrow> (Fn f, ONone)
             | _ \<Rightarrow> (cb1, o1)) = (cbk, ok)"
    by (cases "(case o1 of OFn f \<Rightarrow> (Fn f, ONone) | _ \<Rightarrow> (cb1, o1))") auto
  let ?mx = "(case ok of OObj q m t \<Rightarrow> m | _ \<Rightarrow> None)"
  let ?tmo = "(case ok of OObj q m t \<Rightarrow> t | _ \<Rightarrow> None)"
  obtain r1 c1 where i: "initMuxRequestDetails cbk ?mx c = (r1, c1)"
    by (cases "initMuxRequestDetails cbk ?mx c") auto
  have s1: "sstep c c1" using sstep_initMux [of c cbk ?mx] i by simp
  have e: "request sbj m opts cb c =
     (case (r1, c1) of
             (Throw e, c1) \<Rightarrow> (Throw e, c1)
           | (Ret conf, c1) \<Rightarrow>
               (case publish sbj msg1 (JStr (rq_inbox conf)) Undefined c1 of
                  (Throw e, c2) \<Rightarrow> (Throw e, c2)
                | (Ret _, c2) \<Rightarrow>
                    if ?tmo \<noteq> None \<and> ?tmo \<noteq> Some 0 then
                      (let (h, c3) = setTimeout (ReqTimer (rq_token conf) (rq_callback conf) (rq_id conf)) c2
                       in (Ret (rq_id conf),
                           c3\<lparr>respmux := map_option
                                 (\<lambda>m. m\<lparr>requestMap := obj_upd (requestMap m) (rq_token conf)
                                                          (\<lambda>v. v\<lparr>rq_timeout := Some h\<rparr>)\<rparr>)
                                 (respmux c3)\<rparr>))
                    else (Ret (rq_id conf), c2)))"
    using False by (simp only: request_def Let_def a prod.case b i if_False)
  have t: "sstep c (c3\<lparr>respmux := map_option (\<lambda>m. m\<lparr>requestMap := g m\<rparr>) (respmux c3)\<rparr>)"
    if "setTimeout tm c2 = (h, c3)" "sstep c c2" for tm c2 h c3 g
    by (rule sstep_then [OF that(2)])
       (use that(1) in \<open>cases "respmux c2"; auto simp: setTimeout_def core2_def asg_def muxsid_def\<close>)+
  show ?thesis
  proof (cases r1)
    case (Throw x)
    then show ?thesis using e s1 by simp
  next
    case (Ret conf)
    obtain r2 c2 where p: "publish sbj msg1 (JStr (rq_inbox conf)) Undefined c1 = (r2, c2)"
      by (cases "publish sbj msg1 (JStr (rq_inbox conf)) Undefined c1") auto
    have c2: "sstep c c2" using sstep_publish [OF s1, of sbj msg1 "JStr (rq_inbox conf)" Undefined] p by simp
    obtain h c3 where st: "setTimeout (ReqTimer (rq_token conf) (rq_callback conf) (rq_id conf)) c2 = (h, c3)"
      by (cases "setTimeout (ReqTimer (rq_token conf) (rq_callback conf) (rq_id conf)) c2") auto
    show ?thesis using e Ret p c2 st t [OF st c2]
      by (cases r2) (simp_all add: Let_def)
  qed
qed

lemma sstep_requestOne: "sstep c (snd (requestOne s m opts t cb c))"
  by (cases opts) (simp_all add: requestOne_def sstep_request)

text \<open>A request through the multiplexer draws at most one id.\<close>

lemma initMux_nid: "nid c - 1 \<le> nid (snd (initMuxRequestDetails cb ex c))"
proof -
  obtain r k where rk: "createResponseMux c = (r, k)" by (cases "createResponseMux c") auto
  note f = createResponseMux_core1 [of c, unfolded rk snd_conv fst_conv]
  let ?k2 = "k\<lparr>nuid_n := nuid_n k + 1\<rparr>"
  have k2: "nid ?k2 = nid c" using f by (simp add: nid_def)
  show ?thesis
  proof (cases r)
    case (Throw e)
    then show ?thesis using rk f by (simp add: initMuxRequestDetails_def)
  next
    case (Ret g)
    show ?thesis
    proof (cases "respmux k")
      case None
      then show ?thesis using rk Ret k2 by (simp add: initMuxRequestDetails_def Let_def)
    next
      case (Some m)
      have n: "nid c = nextID m" using k2 Some by (simp add: nid_def)
      show ?thesis using rk Ret Some n by (simp add: initMuxRequestDetails_def Let_def nid_def)
    qed
  qed
qed

lemma request_nid:
  assumes "\<not> useOldRequestStyle (options c)"
  shows "nid c - 1 \<le> nid (snd (request sbj m opts cb c))"
proof -
  obtain cb1 msg1 and o1 :: "nat apiopts" where a: "(case m of JFun f \<Rightarrow> (Fn f, JStr EMPTY, ONone)
             | _ \<Rightarrow> (cb, m, opts)) = (cb1, msg1, o1)"
    by (cases "(case m of JFun f \<Rightarrow> (Fn f, JStr EMPTY, ONone) | _ \<Rightarrow> (cb, m, opts))") auto
  obtain cbk and ok :: "nat apiopts" where b: "(case o1 of OFn f \<Rightarrow> (Fn f, ONone)
             | _ \<Rightarrow> (cb1, o1)) = (cbk, ok)"
    by (cases "(case o1 of OFn f \<Rightarrow> (Fn f, ONone) | _ \<Rightarrow> (cb1, o1))") auto
  let ?mx = "(case ok of OObj q m t \<Rightarrow> m | _ \<Rightarrow> None)"
  let ?tmo = "(case ok of OObj q m t \<Rightarrow> t | _ \<Rightarrow> None)"
  obtain r1 c1 where i: "initMuxRequestDetails cbk ?mx c = (r1, c1)"
    by (cases "initMuxRequestDetails cbk ?mx c") auto
  have s1: "nid c - 1 \<le> nid c1" using initMux_nid [of c cbk ?mx] i by simp
  have e: "request sbj m opts cb c =
     (case (r1, c1) of
             (Throw e, c1) \<Rightarrow> (Throw e, c1)
           | (Ret conf, c1) \<Rightarrow>
               (case publish sbj msg1 (JStr (rq_inbox conf)) Undefined c1 of
                  (Throw e, c2) \<Rightarrow> (Throw e, c2)
                | (Ret _, c2) \<Rightarrow>
                    if ?tmo \<noteq> None \<and> ?tmo \<noteq> Some 0 then
                      (let (h, c3) = setTimeout (ReqTimer (rq_token conf) (rq_callback conf) (rq_id conf)) c2
                       in (Ret (rq_id conf),
                           c3\<lparr>respmux := map_option
                                 (\<lambda>m. m\<lparr>requestMap := obj_upd (requestMap m) (rq_token conf)
                                                          (\<lambda>v. v\<lparr>rq_timeout := Some h\<rparr>)\<rparr>)
                                 (respmux c3)\<rparr>))
                    else (Ret (rq_id conf), c2)))"
    using assms by (simp only: request_def Let_def a prod.case b i if_False)
  have t: "nid (c3\<lparr>respmux := map_option (\<lambda>m. m\<lparr>requestMap := g m\<rparr>) (respmux c3)\<rparr>) = nid c2"
    if "setTimeout tm c2 = (h, c3)" for tm c2 h c3 g
    using that by (cases "respmux c2") (auto simp: setTimeout_def nid_def)
  show ?thesis
  proof (cases r1)
    case (Throw x)
    then show ?thesis using e s1 by simp
  next
    case (Ret conf)
    obtain r2 c2 where p: "publish sbj msg1 (JStr (rq_inbox conf)) Undefined c1 = (r2, c2)"
      by (cases "publish sbj msg1 (JStr (rq_inbox conf)) Undefined c1") auto
    have c2: "nid c2 = nid c1" using core_eqD(10) [OF publish_adv [OF p]] .
    obtain h c3 where st: "setTimeout (ReqTimer (rq_token conf) (rq_callback conf) (rq_id conf)) c2 = (h, c3)"
      by (cases "setTimeout (ReqTimer (rq_token conf) (rq_callback conf) (rq_id conf)) c2") auto
    show ?thesis using e Ret p c2 s1 st t [OF st]
      by (cases r2) (simp_all add: Let_def)
  qed
qed

text \<open>Delivery and timers assign no sid.\<close>

lemma core2_processMsg_deliver: "core2 (processMsg_deliver sb pl c) = core2 c"
proof -
  have m: "core2 (snd (mux_dispatch a b s c)) = core2 c" for a b s
  proof (cases "respmux c")
    case None
    then show ?thesis by (simp add: mux_dispatch_def)
  next
    case (Some mm)
    have u: "core2 (k\<lparr>respmux := Some (mm\<lparr>requestMap := rm\<rparr>)\<rparr>) = core2 c"
      if "core2 k = core2 c" for k rm
      using that Some by (simp add: core2_def asg_def muxsid_def)
    have v: "core2 (snd (case cancelMuxRequest t k of
                                (Throw x, c3) \<Rightarrow> (Throw x, c3)
                              | (Ret _, c3) \<Rightarrow> (Ret (), emit (EvUnsubscribe i sj) c3))) = core2 k" for t k i sj
    proof -
      obtain r k' where rk: "cancelMuxRequest t k = (r, k')" by (cases "cancelMuxRequest t k") auto
      show ?thesis using core2_cancelMuxRequest [of t k] rk by (cases r) simp_all
    qed
    show ?thesis
      using Some
      by (simp add: mux_dispatch_def Let_def u v split: option.split cbval.split)
  qed
  have i: "core2 (invoke_sub f a b s n c) = core2 c" for f a b s n
  proof (cases f)
    case (SubUser u)
    then show ?thesis by (cases u) (simp_all add: invoke_sub_def)
  next
    case SubMux
    obtain r k where rk: "mux_dispatch a b s c = (r, k)" by (cases "mux_dispatch a b s c") auto
    show ?thesis using SubMux m [of a b s] rk by (cases r) (simp_all add: invoke_sub_def)
  next
    case (SubOldReq u)
    then show ?thesis by (cases u) (simp_all add: invoke_sub_def)
  qed
  show ?thesis by (simp add: processMsg_deliver_def i)
qed

lemma core2_processMsg: "core2 (snd (processMsg c)) = core2 c"
proof -
  have d: "core2 (processMsg_deliver sb pl k) = core2 k" for sb pl k
    by (rule core2_processMsg_deliver)
  have u: "core2 (snd (case unsubscribe s None k of
                  (Throw e, c3) \<Rightarrow> (Throw e, c3)
                | (Ret _, c3) \<Rightarrow> (Ret (), upd_sub n f c3))) = core2 k" for s k n f
  proof -
    obtain r k' where rk: "unsubscribe s None k = (r, k')" by (cases "unsubscribe s None k") auto
    show ?thesis using core2_unsubscribe [of s None k] rk by (cases r) simp_all
  qed
  have t: "core2 (snd (processMsg_timer n sb k)) = core2 k" for n sb k
    by (simp add: processMsg_timer_def split: option.split)
  have s: "core2 (snd (processMsg_sub n sb pl k)) = core2 k" for n sb pl k
    using t [of n sb k]
    by (cases "processMsg_timer n sb k")
       (simp add: processMsg_sub_def Let_def d u split: option.split)
  show ?thesis
    by (simp add: processMsg_def s split: option.split)
qed

lemma core2_finish_msg: "core2 (snd (finish_msg c)) = core2 c"
proof -
  obtain r k where rk: "processMsg c = (r, k)" by (cases "processMsg c") auto
  show ?thesis using core2_processMsg [of c] rk by (cases r) (simp_all add: finish_msg_def)
qed

lemma core2_fire_timer: "core2 (snd (fire_timer h c)) = core2 c"
proof (cases "map_of (timers c) h")
  case None
  then show ?thesis by (simp add: fire_timer_def)
next
  case (Some tm)
  obtain tk cb rid where tm: "tm = ReqTimer tk cb rid" by (cases tm) auto
  have v: "core2 (snd (case cancelMuxRequest t k of
                           (Throw e, c3) \<Rightarrow> (Throw e, c3)
                         | (Ret _, c3) \<Rightarrow> (Ret (), c3))) = core2 k" for t k
  proof -
    obtain r k' where rk: "cancelMuxRequest t k = (r, k')" by (cases "cancelMuxRequest t k") auto
    show ?thesis using core2_cancelMuxRequest [of t k] rk by (cases r) simp_all
  qed
  show ?thesis using Some tm by (cases cb) (simp_all add: fire_timer_def Let_def v)
qed

definition is_request :: "act \<Rightarrow> bool" where
  "is_request a = (case a of Request _ _ _ _ \<Rightarrow> True | RequestOne _ _ _ _ _ \<Rightarrow> True | _ \<Rightarrow> False)"

definition requests_in :: "act list \<Rightarrow> nat" where
  "requests_in as = length (filter is_request as)"

text \<open>
  The sids handed to the application, in order: those returned by subscribe, and with
  useOldRequestStyle (\<open>old\<close>) also those returned by request.
\<close>

definition sid_results :: "bool \<Rightarrow> result list \<Rightarrow> int list" where
  "sid_results old rs =
     concat (map (\<lambda>r. case r of RSid n \<Rightarrow> [n] | RReq n \<Rightarrow> if old then [n] else [] | _ \<Rightarrow> []) rs)"

lemma exec_sids:
  assumes "exec a c = (r, c')"
  shows "(a = Close \<and> c' = close c) \<or> sstep c c'"
    and "r = RSid n \<Longrightarrow> \<not> closed c \<and> subs c \<noteq> None \<and> n = ssid c + 1 \<and> asg c' = asg c @ [n]"
    and "r = RReq n \<Longrightarrow> useOldRequestStyle (options c) \<Longrightarrow>
           \<not> closed c \<and> subs c \<noteq> None \<and> n = ssid c + 1 \<and> asg c' = asg c @ [n]"
    and "\<not> is_request a \<Longrightarrow> nid c' = nid c"
    and "\<not> useOldRequestStyle (options c) \<Longrightarrow> nid c - 1 \<le> nid c'"
proof -
  have k: "sstep c k \<and> nid k = nid c" if "core2 k = core2 c" "core1 k = core1 c" for k
    using that sstep_core1 [of k c] by (simp add: core1_def)
  have all: "((a = Close \<and> c' = close c) \<or> sstep c c')
     \<and> (r = RSid n \<longrightarrow> \<not> closed c \<and> subs c \<noteq> None \<and> n = ssid c + 1 \<and> asg c' = asg c @ [n])
     \<and> (r = RReq n \<longrightarrow> useOldRequestStyle (options c) \<longrightarrow>
           \<not> closed c \<and> subs c \<noteq> None \<and> n = ssid c + 1 \<and> asg c' = asg c @ [n])
     \<and> (\<not> is_request a \<longrightarrow> nid c' = nid c)
     \<and> (\<not> useOldRequestStyle (options c) \<longrightarrow> nid c - 1 \<le> nid c')"
  proof (cases a)
    case (Subscribe sbj opts cb)
    let ?s = "subscribe sbj (map_apiopts SubUser opts) (SubUser cb) c"
    note s = sstep_subscribe(1) [where c = c and sbj = sbj and opts = "map_apiopts SubUser opts"
        and cb = "SubUser cb"]
      sstep_subscribe(2) [where c = c and sbj = sbj and opts = "map_apiopts SubUser opts"
        and cb = "SubUser cb" and n = n]
    have e: "c' = snd ?s" "r = RSid n \<longrightarrow> fst ?s = Ret n"
      using assms Subscribe by (cases ?s; cases "fst ?s"; auto)+
    have nd: "nid (snd ?s) = nid c"
    proof (cases "closed c")
      case True
      then show ?thesis by (simp add: subscribe_closed)
    next
      case False
      then show ?thesis
        using subscribe_open(1) [OF False, of sbj "map_apiopts SubUser opts" "SubUser cb"]
        by (simp add: core1_def nid_def)
    qed
    show ?thesis using s e nd assms Subscribe
      by (cases ?s; cases "fst ?s") (auto simp: is_request_def)
  next
    case (Unsubscribe sid mx)
    have "c' = snd (unsubscribe sid mx c)" using assms Unsubscribe
      by (auto simp: ret_unit_snd dest!: arg_cong [where f = snd])
    then show ?thesis
      using k [OF core2_unsubscribe unsubscribe_core1, of sid mx] assms Unsubscribe
        ret_unit_fst [of "unsubscribe sid mx c" n]
      by (auto dest!: arg_cong [where f = fst])
  next
    case (Publish s m rp cb)
    have "c' = snd (publish s m rp cb c)" using assms Publish
      by (auto simp: ret_unit_snd dest!: arg_cong [where f = snd])
    then show ?thesis
      using k [OF core2_publish core_core1 [OF publish_core], of s m rp cb] assms Publish
        ret_unit_fst [of "publish s m rp cb c" n]
      by (auto dest!: arg_cong [where f = fst])
  next
    case (Flush cb)
    have "c' = snd (flush cb c)" using assms Flush
      by (auto simp: ret_unit_snd dest!: arg_cong [where f = snd])
    then show ?thesis
      using k [OF core2_flush core_core1 [OF flush_core], of cb] assms Flush
        ret_unit_fst [of "flush cb c" n]
      by (auto dest!: arg_cong [where f = fst])
  next
    case (Request s m opts cb)
    let ?q = "request s m opts cb c"
    have e: "c' = snd ?q" "r = RReq n \<longrightarrow> fst ?q = Ret n" "r \<noteq> RSid n"
      using assms Request by (cases ?q; cases "fst ?q"; auto)+
    have o: "useOldRequestStyle (options c) \<Longrightarrow> ?q = oldRequest s m opts cb c"
      by (simp add: request_def)
    show ?thesis
      using e sstep_request [of c s m opts cb] request_nid [of c s m opts cb]
        sstep_oldRequest(2) [where c = c and sbj = s and m = m and opts = opts and cb = cb and n = n] o
        Request
      by (auto simp: is_request_def)
  next
    case (RequestOne s m opts t cb)
    let ?q = "requestOne s m opts t cb c"
    have e: "c' = snd ?q" "r = RReq n \<longrightarrow> fst ?q = Ret n" "r \<noteq> RSid n"
      using assms RequestOne by (cases ?q; cases "fst ?q"; auto)+
    obtain o' where o': "?q = request s m o' cb c"
      by (cases opts) (simp_all add: requestOne_def)
    have o: "useOldRequestStyle (options c) \<Longrightarrow> ?q = oldRequest s m o' cb c"
      using o' by (simp add: request_def)
    show ?thesis
      using e sstep_requestOne [of c s m opts t cb] request_nid [of c s m o' cb] o'
        sstep_oldRequest(2) [where c = c and sbj = s and m = m and opts = o' and cb = cb and n = n] o
        RequestOne
      by (auto simp: is_request_def)
  next
    case Close
    then show ?thesis using assms by (auto simp: close_fields nid_def is_request_def)
  next
    case (Deliver sbj sid rep m)
    show ?thesis
    proof (cases "closed c")
      case True
      then show ?thesis using assms Deliver by auto
    next
      case False
      let ?c0 = "c\<lparr>payload := Some (msg_payload sbj sid rep m)\<rparr>"
      have "c' = snd (finish_msg ?c0)" using assms Deliver False
        by (auto simp: ret_unit_snd dest!: arg_cong [where f = snd])
      moreover have "core2 (snd (finish_msg ?c0)) = core2 c" "core1 (snd (finish_msg ?c0)) = core1 c"
        using core2_finish_msg [of ?c0] finish_msg_core1 [of ?c0] by simp_all
      ultimately show ?thesis
        using k [of c'] assms Deliver False ret_unit_fst [of "finish_msg ?c0" n]
        by (auto dest!: arg_cong [where f = fst])
    qed
  next
    case (Fire h)
    have "c' = snd (fire_timer h c)" using assms Fire
      by (auto simp: ret_unit_snd dest!: arg_cong [where f = snd])
    then show ?thesis
      using k [OF core2_fire_timer fire_timer_core1, of h] assms Fire
        ret_unit_fst [of "fire_timer h c" n]
      by (auto dest!: arg_cong [where f = fst])
  qed
  show "(a = Close \<and> c' = close c) \<or> sstep c c'"
    and "r = RSid n \<Longrightarrow> \<not> closed c \<and> subs c \<noteq> None \<and> n = ssid c + 1 \<and> asg c' = asg c @ [n]"
    and "r = RReq n \<Longrightarrow> useOldRequestStyle (options c) \<Longrightarrow>
           \<not> closed c \<and> subs c \<noteq> None \<and> n = ssid c + 1 \<and> asg c' = asg c @ [n]"
    and "\<not> is_request a \<Longrightarrow> nid c' = nid c"
    and "\<not> useOldRequestStyle (options c) \<Longrightarrow> nid c - 1 \<le> nid c'"
    using all by blast+
qed

text \<open>
  What holds of every client a run reaches: the sids assigned so far are 2, 3, 4, ... in
  this order, an open client has its subscription table and \<open>ssid\<close> is the last sid
  assigned (1 before the first), and the wildcard subscription has one of them.
\<close>

definition sane :: "client \<Rightarrow> bool" where
  "sane c = (asg c = [2..1 + int (length (asg c))]
             \<and> (\<not> closed c \<longrightarrow> subs c \<noteq> None \<and> ssid c = 1 + int (length (asg c)))
             \<and> (\<forall>s. muxsid c = Some s \<longrightarrow> s \<in> set (asg c)))"

lemma upto_snoc: "[2..1 + int k] @ [2 + int k] = [2..2 + int k]"
  using upto_rec2 [of 2 "2 + int k"] by simp

lemma sane_sstep:
  assumes "sane c" "sstep c c'"
  shows "sane c'" "asg c' = asg c \<or> asg c' = asg c @ [2 + int (length (asg c))]"
proof -
  note s = assms(1) [unfolded sane_def]
  note t = assms(2) [unfolded sstep_def]
  have a: "sane c' \<and> (asg c' = asg c \<or> asg c' = asg c @ [2 + int (length (asg c))])"
  proof (cases "core2 c' = core2 c \<and> (ssid c' = ssid c \<or> subs c = None)")
    case True
    then have e: "asg c' = asg c" "(subs c' = None) = (subs c = None)" "muxsid c' = muxsid c"
      by (simp_all add: core2_def)
    show ?thesis unfolding sane_def e using s t True by auto
  next
    case False
    then have g: "\<not> closed c" "subs c \<noteq> None" "asg c' = asg c @ [ssid c + 1]" "subs c' \<noteq> None"
      "ssid c' = ssid c + 1" "muxsid c' = muxsid c \<or> muxsid c' = Some (ssid c + 1)"
      "closed c' = closed c"
      using t by auto
    have n: "ssid c + 1 = 2 + int (length (asg c))" using s g(1) by simp
    have u: "asg c' = [2..1 + int (length (asg c'))]"
      using s upto_snoc [of "length (asg c)"] unfolding g(3) n by simp
    have m: "\<forall>x. muxsid c' = Some x \<longrightarrow> x \<in> set (asg c')"
      using g(6) s unfolding g(3) by auto
    show ?thesis unfolding sane_def using u m g n by simp
  qed
  show "sane c'" "asg c' = asg c \<or> asg c' = asg c @ [2 + int (length (asg c))]"
    using a by simp_all
qed

lemma sane_close:
  assumes "sane c"
  shows "sane (close c)" "asg (close c) = asg c"
proof -
  show e: "asg (close c) = asg c" by (simp add: close_fields asg_def)
  have "muxsid (close c) = muxsid c" "closed (close c)" by (simp_all add: close_fields muxsid_def)
  then show "sane (close c)" using assms unfolding sane_def e by simp
qed

lemma sane_exec:
  assumes "exec a c = (r, c')" "sane c"
  shows "sane c'" "asg c' = asg c \<or> asg c' = asg c @ [2 + int (length (asg c))]"
  using exec_sids(1) [OF assms(1)] sane_sstep [OF assms(2), of c'] sane_close [OF assms(2)]
  by auto

lemma sid_results_simps [simp]:
  "sid_results old [] = []"
  "sid_results old (rs @ rs') = sid_results old rs @ sid_results old rs'"
  "sid_results old (r # rs)
     = (case r of RSid n \<Rightarrow> [n] | RReq n \<Rightarrow> if old then [n] else [] | _ \<Rightarrow> []) @ sid_results old rs"
  by (simp_all add: sid_results_def)

lemma exec_sid_result:
  assumes "exec a c = (r, c')" "sane c"
  shows "sid_results (useOldRequestStyle (options c)) [r] = []
         \<or> sid_results (useOldRequestStyle (options c)) [r] = [2 + int (length (asg c))]
           \<and> asg c' = asg c @ [2 + int (length (asg c))]"
proof -
  note s = assms(2) [unfolded sane_def]
  show ?thesis
  proof (cases r)
    case (RSid n)
    then show ?thesis using exec_sids(2) [OF assms(1), of n] s by auto
  next
    case (RReq n)
    then show ?thesis using exec_sids(3) [OF assms(1), of n] s by auto
  qed simp_all
qed

lemma run_sane:
  assumes "run c as = (rs, c')" "sane c"
  shows "sane c' \<and> length (asg c) \<le> length (asg c')
         \<and> sorted_wrt (<) (sid_results (useOldRequestStyle (options c)) rs)
         \<and> (\<forall>n \<in> set (sid_results (useOldRequestStyle (options c)) rs).
               1 + int (length (asg c)) < n \<and> n \<le> 1 + int (length (asg c')))"
  using assms
proof (induction as arbitrary: c rs c')
  case Nil
  then show ?case by simp
next
  case (Cons a as)
  obtain r c1 where e: "exec a c = (r, c1)" by (cases "exec a c") auto
  obtain rs1 c2 where r1: "run c1 as = (rs1, c2)" by (cases "run c1 as") auto
  have rs: "rs = r # rs1" "c' = c2" using Cons.prems(1) e r1 by simp_all
  note se = sane_exec [OF e Cons.prems(2)]
  have o: "options c1 = options c" using exec_step(1) [OF e] .
  note ih = Cons.IH [OF r1 se(1), unfolded o]
  note x = exec_sid_result [OF e Cons.prems(2)]
  let ?old = "useOldRequestStyle (options c)"
  have le: "length (asg c) \<le> length (asg c1)" using se(2) by auto
  have sr: "sid_results ?old rs = sid_results ?old [r] @ sid_results ?old rs1"
    unfolding rs by simp
  show ?case
  proof (cases "sid_results ?old [r] = []")
    case True
    then show ?thesis unfolding sr rs(2) using ih le by auto
  next
    case False
    then have f: "sid_results ?old [r] = [2 + int (length (asg c))]"
      "asg c1 = asg c @ [2 + int (length (asg c))]" using x by auto
    have l: "int (length (asg c1)) = 1 + int (length (asg c))" unfolding f(2) by simp
    show ?thesis unfolding sr rs(2) f(1) using ih l by (auto simp: sorted_wrt_append)
  qed
qed

lemma run_nid:
  assumes "run c as = (rs, c')" "\<not> useOldRequestStyle (options c)"
  shows "nid c - int (requests_in as) \<le> nid c' \<and> nid c' \<le> nid c - int (length (reqids_of rs))"
  using assms
proof (induction as arbitrary: c rs c')
  case Nil
  then show ?case by (simp add: requests_in_def sids_of_Cons)
next
  case (Cons a as)
  obtain r c1 where e: "exec a c = (r, c1)" by (cases "exec a c") auto
  obtain rs1 c2 where r1: "run c1 as = (rs1, c2)" by (cases "run c1 as") auto
  have rs: "rs = r # rs1" "c' = c2" using Cons.prems(1) e r1 by simp_all
  have o: "\<not> useOldRequestStyle (options c1)" using exec_step(1) [OF e] Cons.prems(2) by simp
  note ih = Cons.IH [OF r1 o]
  have lo: "nid c - (if is_request a then 1 else 0) \<le> nid c1"
    using exec_sids(4,5) [OF e] Cons.prems(2) by auto
  have hi: "nid c1 \<le> nid c - int (length (reqids_of [r]))"
  proof (cases r)
    case (RReq n)
    then show ?thesis using exec_step(6) [OF e, of n] Cons.prems(2) by (simp add: sids_of_Cons)
  qed (use exec_step(4) [OF e] in \<open>simp_all add: sids_of_Cons\<close>)
  have l: "length (reqids_of rs) = length (reqids_of [r]) + length (reqids_of rs1)"
    unfolding rs by (cases r) (simp_all add: sids_of_Cons)
  have q: "requests_in (a # as) = (if is_request a then 1 else 0) + requests_in as"
    by (simp add: requests_in_def)
  show ?case unfolding q l rs(2) using ih lo hi by auto
qed

lemma run_snoc:
  assumes "run c as = (rs, c1)" "exec a c1 = (r, c')"
  shows "run c (as @ [a]) = (rs @ [r], c')"
  using assms
proof (induction as arbitrary: c rs)
  case Nil
  then show ?case by simp
next
  case (Cons b as)
  obtain r0 k where e: "exec b c = (r0, k)" by (cases "exec b c") auto
  obtain rs1 k1 where r1: "run k as = (rs1, k1)" by (cases "run k as") auto
  have "rs = r0 # rs1" "c1 = k1" using Cons.prems(1) e r1 by simp_all
  then show ?case using Cons.IH [of k rs1] r1 Cons.prems(2) e by simp
qed

lemma new_client_log:
  "log (new_client os srvs) = []" "respmux (new_client os srvs) = None"
  by (cases srvs; simp add: new_client_def createConnection_def initState_def blank_def
        selectServer_def Let_def split: prod.split)+

lemma sane_new_client: "sane (new_client os srvs)" "asg (new_client os srvs) = []"
  by (simp_all add: sane_def asg_def muxsid_def new_client_log new_client_ids)

lemma run_options: "run c as = (rs, c') \<Longrightarrow> options c' = options c"
proof (induction as arbitrary: c rs c')
  case Nil
  then show ?case by simp
next
  case (Cons a as)
  obtain r c1 where e: "exec a c = (r, c1)" by (cases "exec a c") auto
  obtain rs1 c2 where r1: "run c1 as = (rs1, c2)" by (cases "run c1 as") auto
  have "c' = c2" using Cons.prems e r1 by simp
  then show ?case using Cons.IH [OF r1] exec_step(1) [OF e] by simp
qed

text \<open>
  C1 (as amended).  Take any run of a new client (calls of the API, deliveries, request
  timers) and one more step after it.  The sids assigned by subscribe, to the
  application as well as to the wildcard subscription of the request multiplexer and to
  the subscriptions behind old-style requests, are 2, 3, 4, ... in this order: initState
  sets \<open>ssid\<close> to 1 and subscribe increments it before use, so a subscribe that
  returns, returns 2 plus the number of sids assigned before, and the first returns 2.
  The sids handed to the application are strictly increasing and are among those
  assigned.  With the request multiplexer in use, the ids returned by request are
  strictly decreasing and at most -1; a call of request returns the next id and moves
  it down by one, a call that throws moves it down by at most one (it has spent the id
  when it throws after initMuxRequestDetails), and nothing else moves it: so a request
  made after \<open>k\<close> earlier calls of request, \<open>j\<close> of which returned, returns an id
  from \<open>- 1 - k\<close> to \<open>- 1 - j\<close>, the first call returns -1.  With
  useOldRequestStyle request returns the sid of the subscription it makes.  0 is never
  assigned or returned, and no sid is a request id.
\<close>

theorem ids_of_a_run:
  assumes "run (new_client os srvs) as = (rs, c)" and "exec a c = (r, c')"
  shows "asg (new_client os srvs) = [] \<and> nid (new_client os srvs) = - 1
     \<and> asg c' = [2..1 + int (length (asg c'))]
     \<and> (asg c' = asg c \<or> asg c' = asg c @ [2 + int (length (asg c))])
     \<and> (r = RSid n \<longrightarrow> n = 2 + int (length (asg c)) \<and> asg c' = asg c @ [n])
     \<and> (useOldRequestStyle os \<and> r = RReq n
          \<longrightarrow> n = 2 + int (length (asg c)) \<and> asg c' = asg c @ [n])
     \<and> sorted_wrt (<) (sid_results (useOldRequestStyle os) (rs @ [r]))
     \<and> set (sid_results (useOldRequestStyle os) (rs @ [r])) \<subseteq> set (asg c')
     \<and> (\<forall>m. respmux c' = Some m \<longrightarrow> subscriptionID m \<in> set (asg c'))
     \<and> (\<not> is_request a \<longrightarrow> nid c' = nid c)
     \<and> (\<not> useOldRequestStyle os \<longrightarrow>
           sorted_wrt (>) (reqids_of (rs @ [r])) \<and> (\<forall>i \<in> set (reqids_of (rs @ [r])). i \<le> - 1)
           \<and> nid c - 1 \<le> nid c' \<and> nid c' \<le> nid c
           \<and> (r = RReq n \<longrightarrow> n = nid c \<and> nid c' = n - 1
                 \<and> - 1 - int (requests_in as) \<le> n \<and> n \<le> - 1 - int (length (reqids_of rs)))
           \<and> set (asg c') \<inter> set (reqids_of (rs @ [r])) = {}
           \<and> 0 \<notin> set (reqids_of (rs @ [r])))
     \<and> 0 \<notin> set (asg c') \<and> 0 \<notin> set (sid_results (useOldRequestStyle os) (rs @ [r]))"
proof -
  let ?c0 = "new_client os srvs"
  let ?old = "useOldRequestStyle os"
  note n0 = sane_new_client [of os srvs]
  have o0: "options ?c0 = os" by (simp add: new_client_ids)
  have oc: "options c = os" using run_options [OF assms(1)] o0 by simp
  have sc: "sane c" using run_sane [OF assms(1) n0(1)] by simp
  note se = sane_exec [OF assms(2) sc]
  have run': "run ?c0 (as @ [a]) = (rs @ [r], c')" using run_snoc [OF assms] .
  note rs' = run_sane [OF run' n0(1), unfolded o0 n0(2)]
  have u: "asg c' = [2..1 + int (length (asg c'))]" using se(1) by (simp add: sane_def)
  have mem: "x \<in> set (asg c') \<longleftrightarrow> 2 \<le> x \<and> x \<le> 1 + int (length (asg c'))" for x
  proof -
    have "x \<in> set (asg c') \<longleftrightarrow> x \<in> set [2..1 + int (length (asg c'))]" using u by simp
    then show ?thesis by simp
  qed
  have bd: "\<forall>x \<in> set (sid_results ?old (rs @ [r])). 1 < x \<and> x \<le> 1 + int (length (asg c'))"
    using rs' by simp
  have sub: "set (sid_results ?old (rs @ [r])) \<subseteq> set (asg c')"
  proof (rule subsetI)
    fix x assume "x \<in> set (sid_results ?old (rs @ [r]))"
    then have "1 < x \<and> x \<le> 1 + int (length (asg c'))" using bd by blast
    then show "x \<in> set (asg c')" using mem [of x] by simp
  qed
  have z: "0 \<notin> set (asg c')" using mem [of 0] by simp
  have mx: "\<forall>m. respmux c' = Some m \<longrightarrow> subscriptionID m \<in> set (asg c')"
    using se(1) by (auto simp: sane_def muxsid_def)
  have s1: "r = RSid n \<longrightarrow> n = 2 + int (length (asg c)) \<and> asg c' = asg c @ [n]"
    using exec_sids(2) [OF assms(2), of n] sc by (auto simp: sane_def)
  have s2: "?old \<and> r = RReq n \<longrightarrow> n = 2 + int (length (asg c)) \<and> asg c' = asg c @ [n]"
    using exec_sids(3) [OF assms(2), of n] sc oc by (auto simp: sane_def)
  have nr: "\<not> is_request a \<longrightarrow> nid c' = nid c" using exec_sids(4) [OF assms(2)] by simp
  have mux: "sorted_wrt (>) (reqids_of (rs @ [r])) \<and> (\<forall>i \<in> set (reqids_of (rs @ [r])). i \<le> - 1)
           \<and> nid c - 1 \<le> nid c' \<and> nid c' \<le> nid c
           \<and> (r = RReq n \<longrightarrow> n = nid c \<and> nid c' = n - 1
                 \<and> - 1 - int (requests_in as) \<le> n \<and> n \<le> - 1 - int (length (reqids_of rs)))
           \<and> set (asg c') \<inter> set (reqids_of (rs @ [r])) = {}
           \<and> 0 \<notin> set (reqids_of (rs @ [r]))" if no: "\<not> ?old"
  proof -
    have q: "(\<forall>i \<in> set (reqids_of (rs @ [r])). i \<le> - 1) \<and> sorted_wrt (>) (reqids_of (rs @ [r]))"
      using run_reqids [OF run'] no by (simp add: new_client_ids)
    have b: "- 1 - int (requests_in as) \<le> nid c \<and> nid c \<le> - 1 - int (length (reqids_of rs))"
      using run_nid [OF assms(1)] no by (simp add: new_client_ids)
    have st: "nid c - 1 \<le> nid c'" "nid c' \<le> nid c"
      using exec_sids(5) [OF assms(2)] exec_step(4) [OF assms(2)] no oc by simp_all
    have rq: "r = RReq n \<longrightarrow> n = nid c \<and> nid c' = n - 1"
      using exec_step(6) [OF assms(2), of n] no oc by simp
    have dj: "set (asg c') \<inter> set (reqids_of (rs @ [r])) = {}"
      using q mem by fastforce
    have "0 \<notin> set (reqids_of (rs @ [r]))" using q by fastforce
    moreover have "r = RReq n \<longrightarrow> - 1 - int (requests_in as) \<le> n \<and> n \<le> - 1 - int (length (reqids_of rs))"
      using rq b by blast
    ultimately show ?thesis using q st rq dj by simp
  qed
  have z2: "0 \<notin> set (sid_results ?old (rs @ [r]))" using sub z by blast
  show ?thesis
    using n0(2) new_client_ids(3) [of os srvs] u se(2) s1 s2 rs' sub mx nr mux z z2
    by simp
qed

definition demo_pre :: "act list" where
  "demo_pre =
     [Subscribe ''a'' ONone (Fn 0),
      Request JUndef (JStr ''x'') ONone (Fn 1),
      Request (JStr ''svc'') (JStr ''x'') ONone (Fn 1),
      Subscribe ''b'' (OObj None (Some 2) None) (Fn 2)]"

definition demo_last :: act where
  "demo_last = RequestOne (JStr ''svc'') JUndef ONone 1000 (Fn 3)"

definition old_style_options :: opts where
  "old_style_options = default_options\<lparr>useOldRequestStyle := True\<rparr>"

theorem ids_of_a_run_witness:
  "fst (run (new_client default_options default_servers) demo_pre)
     = [RSid 2, RThrow BAD_SUBJECT, RReq (- 2), RSid 4]
   \<and> fst (exec demo_last (snd (run (new_client default_options default_servers) demo_pre))) = RReq (- 3)
   \<and> asg (snd (exec demo_last (snd (run (new_client default_options default_servers) demo_pre))))
       = [2, 3, 4]
   \<and> muxsid (snd (exec demo_last (snd (run (new_client default_options default_servers) demo_pre))))
       = Some 3
   \<and> sorted_wrt (<) (sid_results False
        (fst (run (new_client default_options default_servers) demo_pre)
         @ [fst (exec demo_last (snd (run (new_client default_options default_servers) demo_pre)))]))
   \<and> sorted_wrt (>) (reqids_of
        (fst (run (new_client default_options default_servers) demo_pre)
         @ [fst (exec demo_last (snd (run (new_client default_options default_servers) demo_pre)))]))
   \<and> fst (run (new_client old_style_options default_servers) [Subscribe ''a'' ONone (Fn 0)]) = [RSid 2]
   \<and> fst (exec (Request (JStr ''svc'') (JStr ''x'') ONone (Fn 1))
             (snd (run (new_client old_style_options default_servers) [Subscribe ''a'' ONone (Fn 0)])))
       = RReq 3
   \<and> asg (snd (exec (Request (JStr ''svc'') (JStr ''x'') ONone (Fn 1))
             (snd (run (new_client old_style_options default_servers) [Subscribe ''a'' ONone (Fn 0)]))))
       = [2, 3]"
proof -
  let ?c = "new_client default_options default_servers"
  let ?r = "run ?c demo_pre"
  let ?x = "exec demo_last (snd ?r)"
  let ?d = "new_client old_style_options default_servers"
  let ?q = "run ?d [Subscribe ''a'' ONone (Fn 0)]"
  let ?y = "exec (Request (JStr ''svc'') (JStr ''x'') ONone (Fn 1)) (snd ?q)"
  have e: "fst ?r = [RSid 2, RThrow BAD_SUBJECT, RReq (- 2), RSid 4]" "fst ?x = RReq (- 3)"
    "asg (snd ?x) = [2, 3, 4]" "muxsid (snd ?x) = Some 3"
    unfolding demo_pre_def demo_last_def by code_simp+
  have f: "fst ?q = [RSid 2]" "fst ?y = RReq 3" "asg (snd ?y) = [2, 3]"
    unfolding old_style_options_def by code_simp+
  have o: "useOldRequestStyle default_options = False" "useOldRequestStyle old_style_options"
    by (simp_all add: default_options_def old_style_options_def)
  have r: "?r = (fst ?r, snd ?r)" "?x = (fst ?x, snd ?x)" by simp_all
  have q: "?q = (fst ?q, snd ?q)" "?y = (fst ?y, snd ?y)" by simp_all
  note t = ids_of_a_run [OF r, where n = "- 3", unfolded o]
  note u = ids_of_a_run [OF q, where n = 3, unfolded o]
  have "sorted_wrt (<) (sid_results False (fst ?r @ [fst ?x]))"
    "sorted_wrt (>) (reqids_of (fst ?r @ [fst ?x]))"
    using t by simp_all
  moreover have "asg (snd ?y) = asg (snd ?q) @ [3]" using u f(2) by simp
  ultimately show ?thesis using e f by simp
qed

text \<open>
  The claim as first stated has the first subscribe return 1, and the request ids start
  at -1.  The first subscribe returns 2; and a request that throws after its id was
  drawn has spent it, so the first id request returns can be -2.
\<close>

theorem first_sid_counterexample:
  "fst (subscribe ''foo'' ONone (SubUser (Fn 0)) (new_client default_options default_servers)) = Ret 2
   \<and> fst (subscribe ''foo'' ONone (SubUser (Fn 0)) (new_client default_options default_servers)) \<noteq> Ret 1
   \<and> fst (run (new_client default_options default_servers)
             [Request JUndef (JStr ''x'') ONone (Fn 1),
              Request (JStr ''svc'') (JStr ''x'') ONone (Fn 1)])
       = [RThrow BAD_SUBJECT, RReq (- 2)]"
  by code_simp


section \<open>Auto-unsubscribe\<close>

lemma obj_get_upd: "obj_get (obj_upd ss n f) n' = (if n' = n then map_option f (obj_get ss n) else obj_get ss n')"
  by (induction ss) (auto simp: obj_get_def obj_upd_def)

lemma obj_get_del: "obj_get (obj_del ss n) n' = (if n' = n then None else obj_get ss n')"
  by (induction ss) (auto simp: obj_get_def obj_del_def)

lemma obj_get_set: "obj_get (obj_set ss n v) n' = (if n' = n then Some v else obj_get ss n')"
  by (induction ss) (auto simp: obj_get_def)

lemma obj_del_upd: "obj_del (obj_upd ss n f) n = obj_del ss n"
  by (induction ss) (auto simp: obj_del_def obj_upd_def)

lemma obj_upd_del: "obj_upd (obj_del ss n) n f = obj_del ss n"
  by (induction ss) (auto simp: obj_del_def obj_upd_def)

lemma sent_frame [simp]:
  "sent (emit ev c) = sent c" "sent (call e c) = sent c" "sent (clearTimeout h c) = sent c"
  "sent (upd_sub n f c) = sent c" "sent (del_sub n c) = sent c"
  by (simp_all add: sent_def emit_def call_def clearTimeout_def upd_sub_def del_sub_def)

lemma subs_upd_sub [simp]:
  "subs (upd_sub n f c) = map_option (\<lambda>ss. obj_upd ss n f) (subs c)"
  "subs (del_sub n c) = map_option (\<lambda>ss. obj_del ss n) (subs c)"
  by (simp_all add: upd_sub_def del_sub_def)

lemma misc_frame [simp]:
  "payload (upd_sub n f c) = payload c" "payload (del_sub n c) = payload c"
  "payload (emit ev c) = payload c" "payload (clearTimeout h c) = payload c"
  by (simp_all add: upd_sub_def del_sub_def emit_def clearTimeout_def)

text \<open>The timer check at the head of processMsg changes neither counters nor callback.\<close>

lemma processMsg_timer_facts:
  assumes "processMsg_timer n sx cx = (sub2, c2)"
  shows "s_max sub2 = s_max sx" "s_received sub2 = s_received sx" "s_callback sub2 = s_callback sx"
    "s_subject sub2 = s_subject sx"
    "log c2 = log cx" "closed c2 = closed cx" "pending c2 = pending cx" "connected c2 = connected cx"
    "stream c2 = stream cx" "sent c2 = sent cx" "payload c2 = payload cx" "respmux c2 = respmux cx"
    "subs c2 = subs cx \<or> subs c2 = map_option (\<lambda>ss. obj_upd ss n (\<lambda>s. s\<lparr>s_timeout := None\<rparr>)) (subs cx)"
  using assms
  by (auto simp: processMsg_timer_def upd_sub_def clearTimeout_def sent_def split: option.splits if_splits)

lemma processMsg_at_max:
  assumes "payload c = Some pl" "p_sid pl = Some n" "p_msg pl = Some m" "subs c = Some ss"
    "obj_get ss n = Some sb" "s_max sb = Some mx" "s_received sb + 1 = mx"
    "s_callback sb = SubUser (Fn k)"
  shows "fst (processMsg c) = Ret ()"
    and "subs (snd (processMsg c)) = Some (obj_del ss n)"
    and "log (snd (processMsg c))
           = log c @ [Emit (EvUnsubscribe (Some n) (s_subject sb)),
                      CallSub k m (p_reply pl) (p_subj pl) (Some n)]"
proof -
  let ?sub1 = "sb\<lparr>s_received := s_received sb + 1\<rparr>"
  let ?c1 = "upd_sub n (\<lambda>s. s\<lparr>s_received := s_received s + 1\<rparr>) c"
  have e: "processMsg c = processMsg_sub n ?sub1 pl ?c1"
    using assms by (simp add: processMsg_def)
  obtain sub2 c2 where t0: "processMsg_timer n ?sub1 ?c1 = (sub2, c2)"
    by (cases "processMsg_timer n ?sub1 ?c1") auto
  note t = processMsg_timer_facts [OF t0]
  have r: "processMsg_sub n ?sub1 pl ?c1
             = (Ret (), processMsg_deliver sub2 pl
                          (emit (EvUnsubscribe (p_sid pl) (s_subject sub2)) (del_sub n c2)))"
    unfolding processMsg_sub_def t0 Let_def prod.case using t(1,2) assms by simp
  have d: "processMsg_deliver sub2 pl k' = call (CallSub k m (p_reply pl) (p_subj pl) (Some n)) k'" for k'
    using t(3) assms by (simp add: processMsg_deliver_def truthy_subcb_def truthy_cb_def invoke_sub_def)
  define cf where "cf = call (CallSub k m (p_reply pl) (p_subj pl) (Some n))
                           (emit (EvUnsubscribe (p_sid pl) (s_subject sub2)) (del_sub n c2))"
  have res: "processMsg c = (Ret (), cf)" by (simp only: e r d cf_def)
  have s2: "subs cf = Some (obj_del ss n)"
    using t(13) assms(4) by (auto simp: obj_del_upd cf_def call_def emit_def)
  have l2: "log cf = log c @ [Emit (EvUnsubscribe (Some n) (s_subject sb)),
                      CallSub k m (p_reply pl) (p_subj pl) (Some n)]"
    using t(4,5) assms(2) by (simp add: cf_def call_def emit_def del_sub_def upd_sub_def)
  show "fst (processMsg c) = Ret ()" by (simp add: res)
  show "subs (snd (processMsg c)) = Some (obj_del ss n)" by (simp add: res s2)
  show "log (snd (processMsg c))
           = log c @ [Emit (EvUnsubscribe (Some n) (s_subject sb)),
                      CallSub k m (p_reply pl) (p_subj pl) (Some n)]"
    by (simp add: res l2)
qed

lemma processMsg_below_max:
  assumes "payload c = Some pl" "p_sid pl = Some n" "p_msg pl = Some m" "subs c = Some ss"
    "obj_get ss n = Some sb" "s_max sb = Some mx" "s_received sb + 1 < mx"
    "s_callback sb = SubUser (Fn k)"
  shows "fst (processMsg c) = Ret ()"
    and "\<exists>ss' sb'. subs (snd (processMsg c)) = Some ss' \<and> obj_get ss' n = Some sb'
            \<and> s_max sb' = Some mx \<and> s_received sb' = s_received sb + 1
            \<and> s_callback sb' = SubUser (Fn k) \<and> s_subject sb' = s_subject sb"
    and "log (snd (processMsg c)) = log c @ [CallSub k m (p_reply pl) (p_subj pl) (Some n)]"
    and "closed (snd (processMsg c)) = closed c"
proof -
  let ?sub1 = "sb\<lparr>s_received := s_received sb + 1\<rparr>"
  let ?c1 = "upd_sub n (\<lambda>s. s\<lparr>s_received := s_received s + 1\<rparr>) c"
  have e: "processMsg c = processMsg_sub n ?sub1 pl ?c1"
    using assms by (simp add: processMsg_def)
  obtain sub2 c2 where t0: "processMsg_timer n ?sub1 ?c1 = (sub2, c2)"
    by (cases "processMsg_timer n ?sub1 ?c1") auto
  note t = processMsg_timer_facts [OF t0]
  have r: "processMsg_sub n ?sub1 pl ?c1 = (Ret (), processMsg_deliver sub2 pl c2)"
    unfolding processMsg_sub_def t0 Let_def prod.case using t(1,2) assms by simp
  have d: "processMsg_deliver sub2 pl k' = call (CallSub k m (p_reply pl) (p_subj pl) (Some n)) k'" for k'
    using t(3) assms by (simp add: processMsg_deliver_def truthy_subcb_def truthy_cb_def invoke_sub_def)
  define cf where "cf = call (CallSub k m (p_reply pl) (p_subj pl) (Some n)) c2"
  have res: "processMsg c = (Ret (), cf)" by (simp only: e r d cf_def)
  have s1: "subs ?c1 = Some (obj_upd ss n (\<lambda>s. s\<lparr>s_received := s_received s + 1\<rparr>))"
    using assms(4) by simp
  have s2: "\<exists>ss' sb'. subs cf = Some ss' \<and> obj_get ss' n = Some sb'
            \<and> s_max sb' = Some mx \<and> s_received sb' = s_received sb + 1
            \<and> s_callback sb' = SubUser (Fn k) \<and> s_subject sb' = s_subject sb"
    using t(13) s1 assms(5,6,8) by (auto simp: cf_def call_def obj_get_upd)
  have l2: "log cf = log c @ [CallSub k m (p_reply pl) (p_subj pl) (Some n)]"
    using t(5) by (simp add: cf_def call_def upd_sub_def)
  have c2: "closed cf = closed c" using t(6) by (simp add: cf_def call_def upd_sub_def)
  show "fst (processMsg c) = Ret ()" by (simp add: res)
  show "\<exists>ss' sb'. subs (snd (processMsg c)) = Some ss' \<and> obj_get ss' n = Some sb'
            \<and> s_max sb' = Some mx \<and> s_received sb' = s_received sb + 1
            \<and> s_callback sb' = SubUser (Fn k) \<and> s_subject sb' = s_subject sb"
    using s2 by (simp add: res)
  show "log (snd (processMsg c)) = log c @ [CallSub k m (p_reply pl) (p_subj pl) (Some n)]"
    by (simp add: res l2)
  show "closed (snd (processMsg c)) = closed c" by (simp add: res c2)
qed

lemma unsubscribe_plain:
  assumes "0 < n" "\<not> closed c" "pending c = Some p" "connected c \<longrightarrow> stream c \<noteq> None"
    "subs c = Some ss" "obj_get ss n = Some sb"
  shows "fst (unsubscribe (Some n) None c) = Ret ()"
    and "subs (snd (unsubscribe (Some n) None c)) = Some (obj_del ss n)"
    and "log (snd (unsubscribe (Some n) None c)) = log c @ [Emit (EvUnsubscribe (Some n) (s_subject sb))]"
    and "sent (snd (unsubscribe (Some n) None c)) = sent c @ [Str (''UNSUB '' @ show_int n @ CR_LF)]"
proof -
  define cmd where "cmd = Str (join_spc [UNSUB, show_int n @ CR_LF])"
  define c1 where "c1 = sendCommand cmd c"
  have e: "unsubscribe (Some n) None c = unsubscribe_tail n None c1"
    using assms by (simp add: unsubscribe_def c1_def cmd_def)
  have c1: "subs c1 = Some ss" "log c1 = log c" by (simp_all add: c1_def assms(5))
  define c3 where "c3 = (case s_timeout (sb\<lparr>s_max := None\<rparr>) of
                                 Some h \<Rightarrow> upd_sub n (\<lambda>s. s\<lparr>s_timeout := None\<rparr>)
                                             (clearTimeout h (upd_sub n (\<lambda>s. s\<lparr>s_max := None\<rparr>) c1))
                               | None \<Rightarrow> upd_sub n (\<lambda>s. s\<lparr>s_max := None\<rparr>) c1)"
  have t: "unsubscribe_tail n None c1
             = (Ret (), emit (EvUnsubscribe (Some n) (s_subject sb)) (del_sub n c3))"
    using assms(6) c1(1) by (simp add: unsubscribe_tail_def Let_def c3_def)
  have c3: "subs (del_sub n c3) = Some (obj_del ss n)" "log c3 = log c" "sent c3 = sent c1"
    using c1
    by (cases "s_timeout sb"; simp add: c3_def obj_del_upd upd_sub_def clearTimeout_def sent_def)+
  have s1: "sent c1 = sent c @ [cmd]" unfolding c1_def using sent_sendCommand [OF assms(2,3,4)] .
  have cmd: "cmd = Str (''UNSUB '' @ show_int n @ CR_LF)" by (simp add: cmd_def UNSUB_def SPC_def)
  show "fst (unsubscribe (Some n) None c) = Ret ()" by (simp add: e t)
  show "subs (snd (unsubscribe (Some n) None c)) = Some (obj_del ss n)"
    using c3(1) by (simp add: e t)
  show "log (snd (unsubscribe (Some n) None c)) = log c @ [Emit (EvUnsubscribe (Some n) (s_subject sb))]"
    using c3(2) by (simp add: e t del_sub_def)
  show "sent (snd (unsubscribe (Some n) None c)) = sent c @ [Str (''UNSUB '' @ show_int n @ CR_LF)]"
    using c3(3) s1 cmd by (simp add: e t)
qed

lemma processMsg_over_max:
  assumes "payload c = Some pl" "p_sid pl = Some n" "subs c = Some ss"
    "obj_get ss n = Some sb" "s_max sb = Some mx" "s_received sb + 1 > mx"
    "0 < n" "\<not> closed c" "pending c = Some p" "connected c \<longrightarrow> stream c \<noteq> None"
  shows "fst (processMsg c) = Ret ()"
    and "subs (snd (processMsg c)) = Some (obj_del ss n)"
    and "log (snd (processMsg c)) = log c @ [Emit (EvUnsubscribe (Some n) (s_subject sb))]"
    and "sent (snd (processMsg c)) = sent c @ [Str (''UNSUB '' @ show_int n @ CR_LF)]"
proof -
  let ?sub1 = "sb\<lparr>s_received := s_received sb + 1\<rparr>"
  let ?c1 = "upd_sub n (\<lambda>s. s\<lparr>s_received := s_received s + 1\<rparr>) c"
  have e: "processMsg c = processMsg_sub n ?sub1 pl ?c1"
    using assms by (simp add: processMsg_def)
  obtain sub2 c2 where t0: "processMsg_timer n ?sub1 ?c1 = (sub2, c2)"
    by (cases "processMsg_timer n ?sub1 ?c1") auto
  note t = processMsg_timer_facts [OF t0]
  obtain ss2 where ss2: "subs c2 = Some ss2" "obj_del ss2 n = obj_del ss n"
    "\<exists>sb2. obj_get ss2 n = Some sb2 \<and> s_subject sb2 = s_subject sb"
    using t(13) assms(3,4) by (auto simp: obj_del_upd obj_get_upd)
  then obtain sb2 where sb2: "obj_get ss2 n = Some sb2" "s_subject sb2 = s_subject sb" by blast
  have pre: "\<not> closed c2" "pending c2 = Some p" "connected c2 \<longrightarrow> stream c2 \<noteq> None"
    "log c2 = log c" "sent c2 = sent c"
    using t assms by (simp_all add: upd_sub_def sent_def)
  note u = unsubscribe_plain [OF assms(7) pre(1,2,3) ss2(1) sb2(1)]
  obtain c3 where c3: "unsubscribe (Some n) None c2 = (Ret (), c3)"
    using u(1) by (cases "unsubscribe (Some n) None c2") auto
  define cf where "cf = upd_sub n (\<lambda>s. s\<lparr>s_callback := SubUser Null\<rparr>) c3"
  have r: "processMsg_sub n ?sub1 pl ?c1 = (Ret (), cf)"
    unfolding processMsg_sub_def t0 Let_def prod.case using t(1,2) assms c3 by (simp add: cf_def)
  have res: "processMsg c = (Ret (), cf)" by (simp only: e r)
  show "fst (processMsg c) = Ret ()" by (simp add: res)
  show "subs (snd (processMsg c)) = Some (obj_del ss n)"
    using u(2) c3 ss2(2) by (simp add: res cf_def obj_upd_del)
  show "log (snd (processMsg c)) = log c @ [Emit (EvUnsubscribe (Some n) (s_subject sb))]"
    using u(3) c3 sb2(2) pre(4) by (simp add: res cf_def upd_sub_def)
  show "sent (snd (processMsg c)) = sent c @ [Str (''UNSUB '' @ show_int n @ CR_LF)]"
    using u(4) c3 pre(5) by (simp add: res cf_def)
qed

text \<open>
  The invocations of a subscription callback for the messages of one sid, and what a
  handler for another sid cannot change.
\<close>

definition is_cs :: "int \<Rightarrow> effect \<Rightarrow> bool" where
  "is_cs n e = (case e of CallSub _ _ _ _ s \<Rightarrow> s = Some n | _ \<Rightarrow> False)"

definition calls_to :: "int \<Rightarrow> client \<Rightarrow> nat" where
  "calls_to n c = length (filter (is_cs n) (log c))"

definition view :: "int \<Rightarrow> client \<Rightarrow> bool \<times> sub option option \<times> nat" where
  "view n c = (closed c, map_option (\<lambda>ss. obj_get ss n) (subs c), calls_to n c)"

lemma is_cs_simps [simp]:
  "is_cs n (CallSub k m r s i) = (i = Some n)" "\<not> is_cs n (Emit ev)" "\<not> is_cs n (CallOldReq k m r)"
  "\<not> is_cs n (CallReq t k m r)" "\<not> is_cs n (CallReqErr t k a b)" "\<not> is_cs n (CallPong k)"
  "\<not> is_cs n (CallErr k e)"
  by (simp_all add: is_cs_def)

lemma view_simps [simp]:
  "\<not> is_cs n e \<Longrightarrow> view n (call e c) = view n c"
  "view n (emit ev c) = view n c" "view n (clearTimeout h c) = view n c"
  "view n (sendCommand cmd c) = view n c"
  "n' \<noteq> n \<Longrightarrow> view n (upd_sub n' f c) = view n c"
  "n' \<noteq> n \<Longrightarrow> view n (del_sub n' c) = view n c"
  "view n (respmux_update g1 c) = view n c" "view n (timers_update g2 c) = view n c"
  "view n (pstate_update g3 c) = view n c" "view n (payload_update g4 c) = view n c"
  by (cases "subs c"; simp add: view_def calls_to_def call_def emit_def clearTimeout_def upd_sub_def
        del_sub_def obj_get_upd obj_get_del)+

lemma view_cancel: "view n (snd (cancelMuxRequest t c)) = view n c"
  by (simp add: cancelMuxRequest_def Let_def split: option.split)

lemma view_unsubscribe_other:
  assumes "sid \<noteq> Some n"
  shows "view n (snd (unsubscribe sid mx c)) = view n c"
proof (cases sid)
  case None
  then show ?thesis by (simp add: unsubscribe_def)
next
  case (Some n')
  then have ne: "n' \<noteq> n" using assms by simp
  have t: "view n (snd (unsubscribe_tail n' mx k)) = view n k" for k
    using ne by (simp add: unsubscribe_tail_def Let_def split: option.split)
  obtain r k where rk: "cancelMuxRequest (TNum n') c = (r, k)" by (cases "cancelMuxRequest (TNum n') c") auto
  have k: "view n k = view n c" using view_cancel [of n "TNum n'" c] rk by simp
  show ?thesis using Some t rk k by (cases r) (simp_all add: unsubscribe_def Let_def)
qed

lemma view_mux_dispatch: "view n (snd (mux_dispatch a b s c)) = view n c"
proof (cases "respmux c")
  case None
  then show ?thesis by (simp add: mux_dispatch_def)
next
  case (Some mm)
  have v: "view n (snd (case cancelMuxRequest t k of
                                (Throw x, c3) \<Rightarrow> (Throw x, c3)
                              | (Ret _, c3) \<Rightarrow> (Ret (), emit ev c3))) = view n k" for t k ev
  proof -
    obtain r k' where rk: "cancelMuxRequest t k = (r, k')" by (cases "cancelMuxRequest t k") auto
    show ?thesis using view_cancel [of n t k] rk by (cases r) simp_all
  qed
  show ?thesis
    using Some by (simp add: mux_dispatch_def Let_def v split: option.split cbval.split)
qed

lemma view_deliver_other:
  assumes "p_sid pl \<noteq> Some n"
  shows "view n (processMsg_deliver sb pl c) = view n c"
proof -
  have i: "view n (invoke_sub f a b s (p_sid pl) c) = view n c" for f a b s
  proof (cases f)
    case (SubUser u)
    then show ?thesis using assms by (cases u) (simp_all add: invoke_sub_def)
  next
    case SubMux
    obtain r k where rk: "mux_dispatch a b s c = (r, k)" by (cases "mux_dispatch a b s c") auto
    show ?thesis using SubMux view_mux_dispatch [of n a b s c] rk by (cases r) (simp_all add: invoke_sub_def)
  next
    case (SubOldReq u)
    then show ?thesis by (cases u) (simp_all add: invoke_sub_def)
  qed
  show ?thesis by (simp add: processMsg_deliver_def i)
qed

lemma view_processMsg_other:
  assumes "p \<noteq> Some (Some n)" "map_option p_sid (payload c) = p"
  shows "view n (snd (processMsg c)) = view n c"
proof (cases "payload c")
  case None
  then show ?thesis by (simp add: processMsg_def)
next
  case (Some pl)
  then have ne: "p_sid pl \<noteq> Some n" using assms by auto
  show ?thesis
  proof (cases "p_sid pl")
    case None
    then show ?thesis using Some by (simp add: processMsg_def split: option.split)
  next
    case (Some n')
    then have nn: "n' \<noteq> n" using ne by simp
    have d: "view n (processMsg_deliver sb pl k) = view n k" for sb k
      by (rule view_deliver_other [OF ne])
    have u: "view n (snd (case unsubscribe (p_sid pl) None k of
                  (Throw e, c3) \<Rightarrow> (Throw e, c3)
                | (Ret _, c3) \<Rightarrow> (Ret (), upd_sub n' f c3))) = view n k" for k f
    proof -
      obtain r k' where rk: "unsubscribe (p_sid pl) None k = (r, k')"
        by (cases "unsubscribe (p_sid pl) None k") auto
      show ?thesis using view_unsubscribe_other [OF ne, of None k] rk nn by (cases r) simp_all
    qed
    have t: "view n (snd (processMsg_timer n' sb k)) = view n k" for sb k
      using nn by (simp add: processMsg_timer_def split: option.split)
    have s: "view n (snd (processMsg_sub n' sb pl k)) = view n k" for sb k
      using t [of sb k] nn
      by (cases "processMsg_timer n' sb k")
         (simp add: processMsg_sub_def Let_def d u split: option.split)
    show ?thesis
      using \<open>payload c = Some pl\<close> Some nn
      by (simp add: processMsg_def s split: option.split)
  qed
qed

lemma view_processMsg_absent:
  assumes "subs c = Some ss" "obj_get ss n = None" "map_option p_sid (payload c) = Some (Some n)"
  shows "processMsg c = (Ret (), c)"
  using assms by (auto simp: processMsg_def split: option.split)

definition is_delivery :: "act \<Rightarrow> bool" where
  "is_delivery a = (case a of Deliver _ _ _ _ \<Rightarrow> True | _ \<Rightarrow> False)"

definition delivered_to :: "int \<Rightarrow> act list \<Rightarrow> nat" where
  "delivered_to n as = length (filter (\<lambda>a. case a of Deliver _ sid _ _ \<Rightarrow> sid = Some n | _ \<Rightarrow> False) as)"

lemma delivered_to_simps [simp]:
  "delivered_to n [] = 0"
  "delivered_to n (Deliver s sid r m # as) = (if sid = Some n then 1 else 0) + delivered_to n as"
  by (simp_all add: delivered_to_def)

lemma payload_msg_payload [simp]:
  "p_sid (msg_payload s sid r m) = sid" "p_msg (msg_payload s sid r m) = Some m"
  "p_reply (msg_payload s sid r m) = r" "p_subj (msg_payload s sid r m) = s"
  by (simp_all add: msg_payload_def)

lemma view_exec_other:
  assumes "sid \<noteq> Some n"
  shows "view n (snd (exec (Deliver s sid r m) c)) = view n c"
proof (cases "closed c")
  case True
  then show ?thesis by simp
next
  case False
  let ?c0 = "c\<lparr>payload := Some (msg_payload s sid r m)\<rparr>"
  have "view n (snd (processMsg ?c0)) = view n ?c0"
    using assms by (intro view_processMsg_other [where p = "Some sid"]) simp_all
  moreover obtain x k where xk: "processMsg ?c0 = (x, k)" by (cases "processMsg ?c0") auto
  ultimately have "view n (snd (finish_msg ?c0)) = view n c"
    by (cases x) (simp_all add: finish_msg_def)
  then show ?thesis using False by (simp add: ret_unit_snd)
qed

lemma run_Cons_snd: "exec a c = (x, c1) \<Longrightarrow> snd (run c (a # as)) = snd (run c1 as)"
  by (cases "run c1 as") simp

lemma run_absent:
  assumes "\<forall>a \<in> set as. is_delivery a" "subs c = Some ss" "obj_get ss n = None"
  shows "calls_to n (snd (run c as)) = calls_to n c"
  using assms
proof (induction as arbitrary: c ss)
  case Nil
  then show ?case by simp
next
  case (Cons a as)
  obtain s sid r m where a: "a = Deliver s sid r m"
    using Cons.prems(1) by (cases a) (auto simp: is_delivery_def)
  obtain x c1 where e: "exec a c = (x, c1)" by (cases "exec a c") auto
  have v: "view n c1 = view n c"
  proof (cases "sid = Some n")
    case False
    then show ?thesis using view_exec_other [of sid n s r m c] e a by simp
  next
    case True
    show ?thesis
    proof (cases "closed c")
      case True
      then show ?thesis using e a by simp
    next
      case False
      let ?c0 = "c\<lparr>payload := Some (msg_payload s sid r m)\<rparr>"
      have "processMsg ?c0 = (Ret (), ?c0)"
        using Cons.prems(2,3) True by (intro view_processMsg_absent [where ss = ss and n = n]) simp_all
      then show ?thesis using e a False by (auto simp: finish_msg_def ret_unit_def)
    qed
  qed
  then obtain ss1 where s1: "subs c1 = Some ss1" "obj_get ss1 n = None" "calls_to n c1 = calls_to n c"
    using Cons.prems(2,3) by (cases "subs c1") (auto simp: view_def)
  have "calls_to n (snd (run c1 as)) = calls_to n c1"
    using Cons.IH [OF _ s1(1,2)] Cons.prems(1) by simp
  then show ?case using run_Cons_snd [OF e, of as] s1(3) by simp
qed

lemma run_live:
  assumes "\<forall>a \<in> set as. is_delivery a" "\<not> closed c" "subs c = Some ss" "obj_get ss n = Some sb"
    "s_callback sb = SubUser (Fn k)" "s_max sb = Some mx" "s_received sb < mx"
  shows "calls_to n (snd (run c as)) = calls_to n c + min (delivered_to n as) (nat (mx - s_received sb))"
  using assms
proof (induction as arbitrary: c ss sb)
  case Nil
  then show ?case by simp
next
  case (Cons a as)
  obtain s sid r m where a: "a = Deliver s sid r m"
    using Cons.prems(1) by (cases a) (auto simp: is_delivery_def)
  obtain x c1 where e: "exec a c = (x, c1)" by (cases "exec a c") auto
  have dl: "\<forall>a \<in> set as. is_delivery a" using Cons.prems(1) by simp
  have rn: "snd (run c (a # as)) = snd (run c1 as)" using e by (rule run_Cons_snd)
  show ?case
  proof (cases "sid = Some n")
    case False
    have v: "view n c1 = view n c" using view_exec_other [OF False, of s r m c] e a by simp
    then obtain ss1 where s1: "\<not> closed c1" "subs c1 = Some ss1" "obj_get ss1 n = Some sb"
        "calls_to n c1 = calls_to n c"
      using Cons.prems(2,3,4) by (cases "subs c1") (auto simp: view_def)
    show ?thesis
      using Cons.IH [OF dl s1(1,2,3) Cons.prems(5,6,7)] s1(4) a False rn by simp
  next
    case True
    let ?pl = "msg_payload s sid r m"
    let ?c0 = "c\<lparr>payload := Some ?pl\<rparr>"
    have p0: "payload ?c0 = Some ?pl" "p_sid ?pl = Some n" "p_msg ?pl = Some m" "subs ?c0 = Some ss"
      using True Cons.prems(3) by simp_all
    have c1: "c1 = snd (finish_msg ?c0)"
      using e a Cons.prems(2) by (auto simp: ret_unit_snd dest!: arg_cong [where f = snd])
    show ?thesis
    proof (cases "s_received sb + 1 = mx")
      case True
      note f = processMsg_at_max [OF p0 Cons.prems(4,6) True Cons.prems(5)]
      obtain k1 where k1: "processMsg ?c0 = (Ret (), k1)" using f(1) by (cases "processMsg ?c0") auto
      have c1': "c1 = k1\<lparr>pstate := AWAITING_CONTROL, payload := None\<rparr>"
        using c1 k1 by (simp add: finish_msg_def)
      have s1: "subs c1 = Some (obj_del ss n)" "obj_get (obj_del ss n) n = None"
        using f(2) k1 by (simp_all add: c1' obj_get_del)
      have l1: "calls_to n c1 = calls_to n c + 1"
        using f(3) k1 by (simp add: c1' calls_to_def)
      have "calls_to n (snd (run c1 as)) = calls_to n c1" using run_absent [OF dl s1] .
      then show ?thesis using l1 rn a \<open>sid = Some n\<close> True by simp
    next
      case False
      then have lt: "s_received sb + 1 < mx" using Cons.prems(7) by simp
      note f = processMsg_below_max [OF p0 Cons.prems(4,6) lt Cons.prems(5)]
      obtain k1 where k1: "processMsg ?c0 = (Ret (), k1)" using f(1) by (cases "processMsg ?c0") auto
      have c1': "c1 = k1\<lparr>pstate := AWAITING_CONTROL, payload := None\<rparr>"
        using c1 k1 by (simp add: finish_msg_def)
      obtain ss1 sb1 where s1: "subs c1 = Some ss1" "obj_get ss1 n = Some sb1" "s_max sb1 = Some mx"
          "s_received sb1 = s_received sb + 1" "s_callback sb1 = SubUser (Fn k)"
        using f(2) k1 by (auto simp: c1')
      have cl: "\<not> closed c1" using f(4) k1 Cons.prems(2) by (simp add: c1')
      have l1: "calls_to n c1 = calls_to n c + 1"
        using f(3) k1 by (simp add: c1' calls_to_def)
      have lt1: "s_received sb1 < mx" using lt s1(4) by simp
      have "calls_to n (snd (run c1 as)) = calls_to n c1 + min (delivered_to n as) (nat (mx - s_received sb1))"
        using Cons.IH [OF dl cl s1(1,2,5,3) lt1] .
      then show ?thesis using l1 rn a \<open>sid = Some n\<close> s1(4) lt by auto
    qed
  qed
qed

lemma unsubscribe_limit_live:
  assumes "0 < n" "\<not> closed c" "subs c = Some ss" "obj_get ss n = Some sb" "s_received sb < mx"
  shows "fst (unsubscribe (Some n) (Some mx) c) = Ret ()"
    and "\<exists>ss' sb'. subs (snd (unsubscribe (Some n) (Some mx) c)) = Some ss' \<and> obj_get ss' n = Some sb'
           \<and> s_callback sb' = s_callback sb \<and> s_max sb' = Some mx \<and> s_received sb' = s_received sb"
    and "closed (snd (unsubscribe (Some n) (Some mx) c)) = closed c"
    and "log (snd (unsubscribe (Some n) (Some mx) c)) = log c"
proof -
  define cmd where "cmd = Str (join_spc (if Some mx \<noteq> None \<and> Some mx \<noteq> Some 0
                         then [UNSUB, show_int n, show_int (the (Some mx)) @ CR_LF]
                         else [UNSUB, show_int n @ CR_LF]))"
  define c1 where "c1 = sendCommand cmd c"
  have e: "unsubscribe (Some n) (Some mx) c = unsubscribe_tail n (Some mx) c1"
    using assms(1,2) by (simp add: unsubscribe_def c1_def cmd_def Let_def)
  have c1: "subs c1 = Some ss" "log c1 = log c" "closed c1 = closed c"
    by (simp_all add: c1_def assms(3))
  have t: "unsubscribe_tail n (Some mx) c1 = (Ret (), upd_sub n (\<lambda>s. s\<lparr>s_max := Some mx\<rparr>) c1)"
    using assms(4,5) c1(1) by (simp add: unsubscribe_tail_def Let_def)
  show "fst (unsubscribe (Some n) (Some mx) c) = Ret ()" by (simp add: e t)
  show "\<exists>ss' sb'. subs (snd (unsubscribe (Some n) (Some mx) c)) = Some ss' \<and> obj_get ss' n = Some sb'
           \<and> s_callback sb' = s_callback sb \<and> s_max sb' = Some mx \<and> s_received sb' = s_received sb"
    using c1(1) assms(4) by (simp add: e t obj_get_upd)
  show "closed (snd (unsubscribe (Some n) (Some mx) c)) = closed c"
    using c1(3) by (simp add: e t upd_sub_def)
  show "log (snd (unsubscribe (Some n) (Some mx) c)) = log c"
    using c1(2) by (simp add: e t upd_sub_def)
qed

lemma subscribe_max_live:
  assumes "\<not> closed c" "subs c = Some ss" "0 \<le> ssid c" "0 < mx"
  shows "fst (subscribe sbj (OObj q (Some mx) t) cb c) = Ret (ssid c + 1)"
    and "\<exists>ss' sb'. subs (snd (subscribe sbj (OObj q (Some mx) t) cb c)) = Some ss'
           \<and> obj_get ss' (ssid c + 1) = Some sb'
           \<and> s_callback sb' = cb \<and> s_max sb' = Some mx \<and> s_received sb' = 0"
    and "closed (snd (subscribe sbj (OObj q (Some mx) t) cb c)) = closed c"
    and "calls_to k (snd (subscribe sbj (OObj q (Some mx) t) cb c)) = calls_to k c"
proof -
  let ?n = "ssid c + 1"
  define sub0 where "sub0 = \<lparr>s_subject = sbj, s_callback = cb, s_received = 0, s_qgroup = None,
                           s_max = None, s_timeout = None, s_expected = None\<rparr>"
  define sub1 where "sub1 = (case q of Some g \<Rightarrow> sub0\<lparr>s_qgroup := Some g\<rparr> | None \<Rightarrow> sub0)"
  define proto where "proto = (case q of Some g \<Rightarrow> [SUB, sbj, g, show_int ?n @ CR_LF]
                               | None \<Rightarrow> [SUB, sbj, show_int ?n @ CR_LF])"
  define c4 where "c4 = emit (EvSubscribe ?n sbj)
                          (sendCommand (Str (join_spc proto)) (c\<lparr>ssid := ?n, subs := Some (obj_set ss ?n sub1)\<rparr>))"
  have e: "subscribe sbj (OObj q (Some mx) t) cb c = subscribe_max (Some mx) c4"
    using assms(1,2)
    by (cases q) (simp_all add: subscribe_def Let_def c4_def sub1_def sub0_def proto_def)
  have c4: "ssid c4 = ?n" "\<not> closed c4" "subs c4 = Some (obj_set ss ?n sub1)"
           "calls_to k c4 = calls_to k c"
    using assms(1) by (simp_all add: c4_def calls_to_def emit_def)
  have g: "obj_get (obj_set ss ?n sub1) ?n = Some sub1" by (simp add: obj_get_set)
  have s1: "s_received sub1 < mx" "s_callback sub1 = cb" "s_received sub1 = 0"
    using assms(4) by (cases q; simp add: sub1_def sub0_def)+
  have n: "0 < ?n" using assms(3) by simp
  note u = unsubscribe_limit_live [OF n c4(2,3) g s1(1)]
  obtain k1 where k1: "unsubscribe (Some ?n) (Some mx) c4 = (Ret (), k1)"
    using u(1) by (cases "unsubscribe (Some ?n) (Some mx) c4") auto
  have sk: "ssid k1 = ?n"
    using unsubscribe_core1 [of "Some ?n" "Some mx" c4] k1 c4(1) by (simp add: core1_def)
  have m: "subscribe_max (Some mx) c4 = (Ret ?n, k1)"
    using assms(4) k1 sk by (simp add: subscribe_max_def c4(1))
  show "fst (subscribe sbj (OObj q (Some mx) t) cb c) = Ret (ssid c + 1)" by (simp add: e m)
  show "\<exists>ss' sb'. subs (snd (subscribe sbj (OObj q (Some mx) t) cb c)) = Some ss'
           \<and> obj_get ss' (ssid c + 1) = Some sb'
           \<and> s_callback sb' = cb \<and> s_max sb' = Some mx \<and> s_received sb' = 0"
    using u(2) k1 s1 by (auto simp: e m)
  show "closed (snd (subscribe sbj (OObj q (Some mx) t) cb c)) = closed c"
    using u(3) k1 c4(2) assms(1) by (simp add: e m)
  show "calls_to k (snd (subscribe sbj (OObj q (Some mx) t) cb c)) = calls_to k c"
    using u(4) k1 c4(4) by (simp add: e m calls_to_def)
qed

text \<open>
  C4.  Take a subscription stored under sid \<open>n\<close> with \<open>max = mx\<close> and an application
  callback.  (1) On the delivery that makes \<open>received\<close> equal to \<open>mx\<close>, processMsg
  removes the subscription, emits \<open>unsubscribe\<close> with the sid and the subject, and then
  still invokes the callback with that message.  (2) On a delivery that makes
  \<open>received\<close> greater than \<open>mx\<close> (on an open client), processMsg queues \<open>UNSUB n\<close>,
  removes the subscription, emits \<open>unsubscribe\<close> and does not invoke the callback.
  (3) Over any sequence of deliveries, a subscription whose limit was set while
  \<open>received < mx\<close> has its callback invoked once per message for it until \<open>received\<close>
  reaches \<open>mx\<close>, and never after.  (4) So after \<open>subscribe(subject, {max: mx}, cb)\<close>
  the callback runs \<open>min j mx\<close> times when \<open>j\<close> messages arrive for the new sid: exactly
  \<open>mx\<close> times when more arrive.
\<close>

theorem auto_unsubscribe:
  "(payload c = Some pl \<and> p_sid pl = Some n \<and> p_msg pl = Some m \<and> subs c = Some ss
      \<and> obj_get ss n = Some sb \<and> s_max sb = Some mx \<and> s_callback sb = SubUser (Fn k)
      \<and> s_received sb + 1 = mx
    \<longrightarrow> fst (processMsg c) = Ret ()
        \<and> subs (snd (processMsg c)) = Some (obj_del ss n)
        \<and> obj_get (obj_del ss n) n = None
        \<and> log (snd (processMsg c))
            = log c @ [Emit (EvUnsubscribe (Some n) (s_subject sb)),
                       CallSub k m (p_reply pl) (p_subj pl) (Some n)])
   \<and> (payload c = Some pl \<and> p_sid pl = Some n \<and> subs c = Some ss
      \<and> obj_get ss n = Some sb \<and> s_max sb = Some mx \<and> s_received sb + 1 > mx
      \<and> 0 < n \<and> \<not> closed c \<and> pending c = Some p \<and> (connected c \<longrightarrow> stream c \<noteq> None)
    \<longrightarrow> fst (processMsg c) = Ret ()
        \<and> subs (snd (processMsg c)) = Some (obj_del ss n)
        \<and> log (snd (processMsg c)) = log c @ [Emit (EvUnsubscribe (Some n) (s_subject sb))]
        \<and> sent (snd (processMsg c)) = sent c @ [Str (''UNSUB '' @ show_int n @ CR_LF)])
   \<and> ((\<forall>a \<in> set as. is_delivery a) \<and> \<not> closed c \<and> subs c = Some ss
      \<and> obj_get ss n = Some sb \<and> s_callback sb = SubUser (Fn k) \<and> s_max sb = Some mx
      \<and> s_received sb < mx
    \<longrightarrow> calls_to n (snd (run c as))
          = calls_to n c + min (delivered_to n as) (nat (mx - s_received sb)))
   \<and> ((\<forall>a \<in> set as. is_delivery a) \<and> \<not> closed c \<and> subs c = Some ss \<and> 0 \<le> ssid c \<and> 0 < mx
    \<longrightarrow> fst (subscribe sbj (OObj q (Some mx) t) (SubUser (Fn k)) c) = Ret (ssid c + 1)
        \<and> calls_to (ssid c + 1) (snd (run (snd (subscribe sbj (OObj q (Some mx) t) (SubUser (Fn k)) c)) as))
            = calls_to (ssid c + 1) c + min (delivered_to (ssid c + 1) as) (nat mx))"
proof (intro conjI impI)
  assume a: "(\<forall>a \<in> set as. is_delivery a) \<and> \<not> closed c \<and> subs c = Some ss \<and> 0 \<le> ssid c \<and> 0 < mx"
  let ?s = "subscribe sbj (OObj q (Some mx) t) (SubUser (Fn k)) c"
  have nc: "\<not> closed c" and ss: "subs c = Some ss" and z: "0 \<le> ssid c" and mx: "0 < mx"
    and dl: "\<forall>a \<in> set as. is_delivery a" using a by simp_all
  note f = subscribe_max_live [OF nc ss z mx, where sbj = sbj and q = q and t = t and cb = "SubUser (Fn k)"]
  show "fst ?s = Ret (ssid c + 1)" by (rule f(1))
  obtain ss' sb' where s': "subs (snd ?s) = Some ss'" "obj_get ss' (ssid c + 1) = Some sb'"
      "s_callback sb' = SubUser (Fn k)" "s_max sb' = Some mx" "s_received sb' = 0"
    using f(2) by blast
  have cl: "\<not> closed (snd ?s)" using f(3) nc by simp
  have lt: "s_received sb' < mx" using s'(5) mx by simp
  show "calls_to (ssid c + 1) (snd (run (snd ?s) as))
            = calls_to (ssid c + 1) c + min (delivered_to (ssid c + 1) as) (nat mx)"
    using run_live [OF dl cl s'(1,2,3,4) lt] f(4) [where k = "ssid c + 1"] s'(5) by simp
qed (use processMsg_at_max processMsg_over_max run_live in \<open>auto simp: obj_get_del\<close>)

definition bar_sub :: "int \<Rightarrow> sub" where
  "bar_sub r = \<lparr>s_subject = ''bar'', s_callback = SubUser (Fn 0), s_received = r, s_qgroup = None,
                s_max = Some 3, s_timeout = None, s_expected = None\<rparr>"

definition bar_client :: "int \<Rightarrow> client" where
  "bar_client r = (new_client default_options default_servers)
       \<lparr>ssid := 2, subs := Some [(2, bar_sub r)],
        payload := Some (msg_payload ''bar'' (Some 2) None (Str ''hi''))\<rparr>"

definition five_to_bar :: "act list" where
  "five_to_bar = replicate 5 (Deliver ''bar'' (Some 2) None (Str ''hi''))"

theorem auto_unsubscribe_witness:
  "log (snd (processMsg (bar_client 2)))
     = [Emit (EvUnsubscribe (Some 2) ''bar''), CallSub 0 (Str ''hi'') None ''bar'' (Some 2)]
   \<and> subs (snd (processMsg (bar_client 2))) = Some []
   \<and> log (snd (processMsg (bar_client 5))) = [Emit (EvUnsubscribe (Some 2) ''bar'')]
   \<and> sent (snd (processMsg (bar_client 5))) = [Str (''UNSUB 2'' @ CR_LF)]
   \<and> calls_to 2 (snd (run (bar_client 0) five_to_bar)) = 3
   \<and> fst (subscribe ''bar'' (OObj None (Some 3) None) (SubUser (Fn 0))
             (new_client default_options default_servers)) = Ret 2
   \<and> calls_to 2 (snd (run (snd (subscribe ''bar'' (OObj None (Some 3) None) (SubUser (Fn 0))
                                   (new_client default_options default_servers))) five_to_bar)) = 3"
proof -
  let ?c0 = "new_client default_options default_servers"
  let ?pl = "msg_payload ''bar'' (Some 2) None (Str ''hi'')"
  have c0: "\<not> closed ?c0" "subs ?c0 = Some []" "ssid ?c0 = 1" "log ?c0 = []" "pending ?c0 = Some []"
    "\<not> connected ?c0" "sent ?c0 = []"
    by code_simp+
  have b: "payload (bar_client r) = Some ?pl" "subs (bar_client r) = Some [(2, bar_sub r)]"
    "\<not> closed (bar_client r)" "pending (bar_client r) = Some []" "\<not> connected (bar_client r)"
    "log (bar_client r) = []" "sent (bar_client r) = []" "calls_to 2 (bar_client r) = 0" for r
    using c0 by (simp_all add: bar_client_def sent_def calls_to_def)
  have s: "obj_get [(2::int, bar_sub r)] 2 = Some (bar_sub r)" "s_max (bar_sub r) = Some 3"
    "s_callback (bar_sub r) = SubUser (Fn 0)" "s_received (bar_sub r) = r"
    "s_subject (bar_sub r) = ''bar''" "obj_del [(2::int, bar_sub r)] 2 = []" for r
    by (simp_all add: obj_get_def bar_sub_def obj_del_def)
  have d: "\<forall>a \<in> set five_to_bar. is_delivery a" "delivered_to 2 five_to_bar = 5"
    by (simp_all add: five_to_bar_def is_delivery_def delivered_to_def)
  have n: "show_int 2 = ''2''" by code_simp
  note t1 = auto_unsubscribe [where c = "bar_client 2" and pl = ?pl and n = 2 and m = "Str ''hi''"
      and ss = "[(2, bar_sub 2)]" and sb = "bar_sub 2" and mx = 3 and k = 0, THEN conjunct1]
  note t2 = auto_unsubscribe [where c = "bar_client 5" and pl = ?pl and n = 2
      and ss = "[(2, bar_sub 5)]" and sb = "bar_sub 5" and mx = 3 and p = "[]",
      THEN conjunct2, THEN conjunct1]
  note t3 = auto_unsubscribe [where c = "bar_client 0" and n = 2 and as = five_to_bar
      and ss = "[(2, bar_sub 0)]" and sb = "bar_sub 0" and mx = 3 and k = 0,
      THEN conjunct2, THEN conjunct2, THEN conjunct1]
  note t4 = auto_unsubscribe [where c = ?c0 and as = five_to_bar and ss = "[]" and mx = 3 and k = 0
      and sbj = "''bar''" and q = None and t = None,
      THEN conjunct2, THEN conjunct2, THEN conjunct2]
  have r1: "log (snd (processMsg (bar_client 2)))
     = [Emit (EvUnsubscribe (Some 2) ''bar''), CallSub 0 (Str ''hi'') None ''bar'' (Some 2)]
     \<and> subs (snd (processMsg (bar_client 2))) = Some []"
    using t1 b s by simp
  have r2: "log (snd (processMsg (bar_client 5))) = [Emit (EvUnsubscribe (Some 2) ''bar'')]
     \<and> sent (snd (processMsg (bar_client 5))) = [Str (''UNSUB 2'' @ CR_LF)]"
    using t2 b s n by simp
  have r3: "calls_to 2 (snd (run (bar_client 0) five_to_bar)) = 3"
    using t3 b s d by simp
  have r4: "fst (subscribe ''bar'' (OObj None (Some 3) None) (SubUser (Fn 0)) ?c0) = Ret 2
   \<and> calls_to 2 (snd (run (snd (subscribe ''bar'' (OObj None (Some 3) None) (SubUser (Fn 0)) ?c0))
                          five_to_bar)) = 3"
    using t4 c0 d by (simp add: calls_to_def)
  show ?thesis using r1 r2 r3 r4 by blast
qed

end
